theory Spec2Isabelle
  imports Main "HOL-Library.List_Lexorder" "HOL-Library.Char_ord"
begin

section \<open>Text, characters and character classes\<close>

text \<open>
  The analyzer reads every file as a Python \<open>str\<close> and works on it with the \<open>re\<close> module.
  A text is modelled as a \<open>string\<close>; a character stands for the code point of the same
  number (code points below 256). Lengths and offsets count characters, as Python's do.

  The character classes are those of \<open>re\<close> on \<open>str\<close> patterns: \<open>\s\<close> is
  \<open>str.isspace\<close> and \<open>\w\<close> is \<open>str.isalnum\<close> or the underscore. The bracket classes of
  the patterns are written out as the patterns have them.
\<close>

abbreviation NL :: char where
  "NL \<equiv> CHR 0x0A"

definition is_space :: "char \<Rightarrow> bool" where
  "is_space c = (c \<in> set [CHR 0x09, CHR 0x0A, CHR 0x0B, CHR 0x0C, CHR 0x0D,
     CHR 0x1C, CHR 0x1D, CHR 0x1E, CHR 0x1F, CHR 0x20, CHR 0x85, CHR 0xA0])"

definition is_upper :: "char \<Rightarrow> bool" where
  "is_upper c = (c \<in> set ''ABCDEFGHIJKLMNOPQRSTUVWXYZ'')"

definition is_lower :: "char \<Rightarrow> bool" where
  "is_lower c = (c \<in> set ''abcdefghijklmnopqrstuvwxyz'')"

definition is_digit :: "char \<Rightarrow> bool" where
  "is_digit c = (c \<in> set ''0123456789'')"

text \<open>\<open>[a-zA-Z_]\<close> and \<open>[a-zA-Z0-9_]\<close>: the first and the later characters of a segment.\<close>

definition is_ident_start :: "char \<Rightarrow> bool" where
  "is_ident_start c = (is_lower c \<or> is_upper c \<or> c = CHR ''_'')"

definition is_ident_char :: "char \<Rightarrow> bool" where
  "is_ident_char c = (is_lower c \<or> is_upper c \<or> is_digit c \<or> c = CHR ''_'')"

text \<open>\<open>[a-zA-Z0-9._\-]\<close>: the characters of a key literal in a call.\<close>

definition is_key_char :: "char \<Rightarrow> bool" where
  "is_key_char c = (is_lower c \<or> is_upper c \<or> is_digit c \<or>
     c = CHR ''.'' \<or> c = CHR ''_'' \<or> c = CHR ''-'')"

text \<open>\<open>['"`]\<close>: the three quote characters.\<close>

definition is_quote :: "char \<Rightarrow> bool" where
  "is_quote c = (c = CHR 0x27 \<or> c = CHR 0x22 \<or> c = CHR 0x60)"

text \<open>
  \<open>\w\<close>: the ASCII letters, digits and underscore, and the alphanumeric code points of the
  range 128 to 255 (the ordinal indicators, the superscript digits, the micro sign, the
  vulgar fractions and the accented letters; the multiplication and division signs are
  not alphanumeric).
\<close>

definition is_word :: "char \<Rightarrow> bool" where
  "is_word c = (is_ident_char c \<or>
     c \<in> set [CHR 0xAA, CHR 0xB2, CHR 0xB3, CHR 0xB5, CHR 0xB9, CHR 0xBA,
                CHR 0xBC, CHR 0xBD, CHR 0xBE] \<or>
     (let n = (of_char c :: nat) in 192 \<le> n \<and> n \<noteq> 215 \<and> n \<noteq> 247))"

section \<open>The regular-expression drivers\<close>

text \<open>
  A compiled pattern is modelled by what it does at one position of the text: given the
  character before the position (\<open>None\<close> at the start of the text; \<open>^\<close> and the
  lookbehind read it) and the text from the position on, it returns the length of the
  match the backtracking search finds first there, with the captured group, or \<open>None\<close>.

  \<open>finditer\<close> scans from the left: at a position where the pattern matches it reports
  the start offset, the length and the group and goes on after the match; elsewhere it
  moves one character on. The counter is the number of characters of the current match
  still to step over. Every pattern of the program consumes at least one character
  where it matches, so Python's rule for empty matches is never exercised.
\<close>

type_synonym 'g matcher = "char option \<Rightarrow> string \<Rightarrow> (nat \<times> 'g) option"

fun finditer_aux :: "'g matcher \<Rightarrow> nat \<Rightarrow> char option \<Rightarrow> nat \<Rightarrow> string \<Rightarrow> (nat \<times> nat \<times> 'g) list" where
  "finditer_aux m k prev pos [] = []"
| "finditer_aux m (Suc k) prev pos (c # cs) = finditer_aux m k (Some c) (Suc pos) cs"
| "finditer_aux m 0 prev pos (c # cs) =
     (case m prev (c # cs) of
        None \<Rightarrow> finditer_aux m 0 (Some c) (Suc pos) cs
      | Some (n, g) \<Rightarrow> (pos, n, g) # finditer_aux m (n - 1) (Some c) (Suc pos) cs)"

definition finditer :: "'g matcher \<Rightarrow> string \<Rightarrow> (nat \<times> nat \<times> 'g) list" where
  "finditer m content = finditer_aux m 0 None 0 content"

text \<open>
  \<open>re.sub(pattern, '', content)\<close>: the same scan, keeping the characters outside the
  matches and deleting those inside.
\<close>

fun sub_empty_aux :: "'g matcher \<Rightarrow> nat \<Rightarrow> char option \<Rightarrow> string \<Rightarrow> string" where
  "sub_empty_aux m k prev [] = []"
| "sub_empty_aux m (Suc k) prev (c # cs) = sub_empty_aux m k (Some c) cs"
| "sub_empty_aux m 0 prev (c # cs) =
     (case m prev (c # cs) of
        None \<Rightarrow> c # sub_empty_aux m 0 (Some c) cs
      | Some (n, g) \<Rightarrow>
          (if n = 0 then c # sub_empty_aux m 0 (Some c) cs
           else sub_empty_aux m (n - 1) (Some c) cs))"

definition sub_empty :: "'g matcher \<Rightarrow> string \<Rightarrow> string" where
  "sub_empty m content = sub_empty_aux m 0 None content"

section \<open>Comment stripping\<close>

text \<open>
  \<open>re.sub(r'//.*?$', '', content, flags=re.MULTILINE)\<close>: after \<open>//\<close> the lazy \<open>.*?\<close>
  takes characters other than the newline until \<open>$\<close> holds, which in multi-line mode is
  at the end of the text and before a newline.
\<close>

definition line_comment_re :: "unit matcher" where
  "line_comment_re prev s =
     (case s of
        c # d # cs \<Rightarrow>
          (if c = CHR ''/'' \<and> d = CHR ''/''
           then Some (2 + length (takeWhile (\<lambda>x. x \<noteq> NL) cs), ())
           else None)
      | _ \<Rightarrow> None)"

text \<open>
  \<open>re.sub(r'/\*.*?\*/', '', content, flags=re.DOTALL)\<close>: after \<open>/*\<close> the lazy \<open>.*?\<close>
  takes any characters, newlines too, up to the first \<open>*/\<close>; with no \<open>*/\<close> ahead there
  is no match. \<open>find_close\<close> counts the characters before that first \<open>*/\<close>.
\<close>

fun find_close :: "string \<Rightarrow> nat option" where
  "find_close [] = None"
| "find_close [c] = None"
| "find_close (c # d # cs) =
     (if c = CHR ''*'' \<and> d = CHR ''/'' then Some 0
      else map_option Suc (find_close (d # cs)))"

definition block_comment_re :: "unit matcher" where
  "block_comment_re prev s =
     (case s of
        c # d # cs \<Rightarrow>
          (if c = CHR ''/'' \<and> d = CHR ''*''
           then map_option (\<lambda>n. (n + 4, ())) (find_close cs)
           else None)
      | _ \<Rightarrow> None)"

text \<open>The two substitutions in the order every reader of the program applies them.\<close>

definition strip_comments :: "string \<Rightarrow> string" where
  "strip_comments content = sub_empty block_comment_re (sub_empty line_comment_re content)"

text \<open>
  Line numbers: \<open>content[:pos].count('\n') + 1\<close> for the line of an offset, and
  \<open>content.split('\n')\<close> for the lines of a text; a text has one line more than it has
  newlines.
\<close>

definition line_of :: "string \<Rightarrow> nat \<Rightarrow> nat" where
  "line_of content pos = count_list (take pos content) NL + 1"

function split_lines :: "string \<Rightarrow> string list" where
  "split_lines content =
     (case dropWhile (\<lambda>x. x \<noteq> NL) content of
        [] \<Rightarrow> [content]
      | _ # rest \<Rightarrow> takeWhile (\<lambda>x. x \<noteq> NL) content # split_lines rest)"
  by pat_completeness auto
termination
proof (relation "measure length")
  fix content :: string and c rest
  assume "dropWhile (\<lambda>x. x \<noteq> NL) content = c # rest"
  then have "length (c # rest) \<le> length content"
    by (metis length_dropWhile_le)
  then show "(rest, content) \<in> measure length" by simp
qed simp

declare split_lines.simps [simp del]

definition line_count :: "string \<Rightarrow> nat" where
  "line_count content = length (split_lines content)"

section \<open>Declaration patterns\<close>

text \<open>
  \<open>^\<close> in multi-line mode: the start of the text, or just after a newline.
\<close>

definition at_line_start :: "char option \<Rightarrow> bool" where
  "at_line_start prev = (prev = None \<or> prev = Some NL)"

text \<open>
  The part the three declaration patterns share after \<open>^\<close>:
  \<open>\s*([a-zA-Z_][a-zA-Z0-9_]*)\s*:\s*\<close>. Every repetition is greedy and is followed by
  a character outside its class, so the search never gives characters back. The result
  is the number of characters taken, the segment and the text that follows. \<open>\s\<close>
  matches the newline: the leading \<open>\s*\<close> runs over blank lines.
\<close>

definition decl_head :: "string \<Rightarrow> (nat \<times> string \<times> string) option" where
  "decl_head s =
     (case dropWhile is_space s of
        [] \<Rightarrow> None
      | c # cs \<Rightarrow>
          (if \<not> is_ident_start c then None
           else
             (case dropWhile is_space (dropWhile is_ident_char cs) of
                [] \<Rightarrow> None
              | d # ds \<Rightarrow>
                  (if d \<noteq> CHR '':'' then None
                   else
                     (let rest = dropWhile is_space ds
                      in Some (length s - length rest, c # takeWhile is_ident_char cs, rest))))))"

text \<open>\<open>obj_pattern\<close>: \<open>^\s*([a-zA-Z_][a-zA-Z0-9_]*)\s*:\s*\{\<close>, multi-line.\<close>

definition obj_pattern :: "string matcher" where
  "obj_pattern prev s =
     (if \<not> at_line_start prev then None
      else
        (case decl_head s of
           None \<Rightarrow> None
         | Some (n, key, rest) \<Rightarrow>
             (case rest of
                [] \<Rightarrow> None
              | e # _ \<Rightarrow> (if e = CHR ''{'' then Some (n + 1, key) else None))))"

text \<open>
  \<open>value_pattern\<close> of the locale files:
  \<open>^\s*([a-zA-Z_][a-zA-Z0-9_]*)\s*:\s*['"`]\<close>, multi-line.
\<close>

definition value_pattern :: "string matcher" where
  "value_pattern prev s =
     (if \<not> at_line_start prev then None
      else
        (case decl_head s of
           None \<Rightarrow> None
         | Some (n, key, rest) \<Rightarrow>
             (case rest of
                [] \<Rightarrow> None
              | e # _ \<Rightarrow> (if is_quote e then Some (n + 1, key) else None))))"

text \<open>
  \<open>value_pattern\<close> of the type file:
  \<open>^\s*([a-zA-Z_][a-zA-Z0-9_]*)\s*:\s*string;\<close>, multi-line.
\<close>

definition type_value_pattern :: "string matcher" where
  "type_value_pattern prev s =
     (if \<not> at_line_start prev then None
      else
        (case decl_head s of
           None \<Rightarrow> None
         | Some (n, key, rest) \<Rightarrow>
             (if take 7 rest = ''string;'' then Some (n + 7, key) else None)))"

section \<open>Key extraction\<close>

text \<open>
  A match as the extractors collect it: \<open>(position, line_num, key, is_category)\<close>, the
  line number being that of the match's start in the stripped text.
\<close>

type_synonym decl_match = "nat \<times> nat \<times> string \<times> bool"

definition find_matches :: "string matcher \<Rightarrow> bool \<Rightarrow> string \<Rightarrow> decl_match list" where
  "find_matches pattern is_category content =
     map (\<lambda>(start, n, key). (start, line_of content start, key, is_category))
       (finditer pattern content)"

text \<open>
  The state of the loop over the matches: the indentation stack (the innermost open
  category last), the key table in insertion order and the category set.
\<close>

record extraction =
  path_stack :: "(string \<times> nat) list"
  keys :: "(string \<times> nat) list"
  categories :: "string set"

definition empty_extraction :: extraction where
  "empty_extraction = \<lparr>path_stack = [], keys = [], categories = {}\<rparr>"

text \<open>
  \<open>while path_stack and path_stack[-1][1] >= indent_level: path_stack.pop()\<close>
\<close>

function pop_stack :: "(string \<times> nat) list \<Rightarrow> nat \<Rightarrow> (string \<times> nat) list" where
  "pop_stack stack indent_level =
     (if stack \<noteq> [] \<and> snd (last stack) \<ge> indent_level
      then pop_stack (butlast stack) indent_level
      else stack)"
  by pat_completeness auto
termination
  by (relation "measure (\<lambda>(stack, indent_level). length stack)") auto

declare pop_stack.simps [simp del]

text \<open>\<open>".".join(parts)\<close>\<close>

fun join_dot :: "string list \<Rightarrow> string" where
  "join_dot [] = []"
| "join_dot [p] = p"
| "join_dot (p # q # ps) = p @ ''.'' @ join_dot (q # ps)"

text \<open>\<open>if full_key not in keys: keys[full_key] = line_num\<close>\<close>

definition record_key :: "string \<Rightarrow> nat \<Rightarrow> (string \<times> nat) list \<Rightarrow> (string \<times> nat) list" where
  "record_key full_key line_num ks =
     (if full_key \<notin> fst ` set ks then ks @ [(full_key, line_num)] else ks)"

text \<open>
  The indentation of a match: the leading whitespace of the line of that number in the
  unstripped text, and the empty line when the number is past the last line.
\<close>

definition indent_of :: "string list \<Rightarrow> nat \<Rightarrow> nat" where
  "indent_of lines line_num =
     (let current_line = (if line_num \<le> length lines then lines ! (line_num - 1) else [])
      in length (takeWhile is_space current_line))"

text \<open>The body of the loop, for one match.\<close>

definition process_match :: "string list \<Rightarrow> decl_match \<Rightarrow> extraction \<Rightarrow> extraction" where
  "process_match lines m st =
     (case m of (position, line_num, key, is_category) \<Rightarrow>
        (let indent_level = indent_of lines line_num;
             stack = pop_stack (path_stack st) indent_level
         in if is_category then
              (let stack' = stack @ [(key, indent_level)];
                   full_key = join_dot (map fst stack')
               in \<lparr>path_stack = stack',
                   keys = record_key full_key line_num (keys st),
                   categories = insert full_key (categories st)\<rparr>)
            else
              (let full_key = (if stack \<noteq> [] then join_dot (map fst stack @ [key]) else key)
               in \<lparr>path_stack = stack,
                   keys = record_key full_key line_num (keys st),
                   categories = categories st\<rparr>)))"

definition process_matches :: "string list \<Rightarrow> decl_match list \<Rightarrow> extraction \<Rightarrow> extraction" where
  "process_matches lines ms st = fold (process_match lines) ms st"

text \<open>
  The matches of both patterns in document order:
  \<open>all_matches.sort(key=lambda x: x[0])\<close>, a stable sort on the position of the list that
  has the category matches first.
\<close>

definition all_matches :: "string matcher \<Rightarrow> string \<Rightarrow> decl_match list" where
  "all_matches leaf_pattern content =
     sort_key fst (find_matches obj_pattern True content @ find_matches leaf_pattern False content)"

text \<open>
  What an extractor does with the text of a file it has read: the lines are those of
  the text as read, the matches those of the stripped text.
\<close>

definition extract_from_text :: "string matcher \<Rightarrow> string \<Rightarrow> extraction" where
  "extract_from_text leaf_pattern content =
     (let lines = split_lines content;
          stripped = strip_comments content
      in process_matches lines (all_matches leaf_pattern stripped) empty_extraction)"

section \<open>The file system\<close>

text \<open>
  The files below the project root, in the order a directory walk meets them: the path
  of each with its text, or \<open>None\<close> for a path that exists and cannot be read as
  text. A path that is not listed does not exist. Opening an unreadable path raises;
  where the program does not catch that, the run ends with the error.
\<close>

type_synonym filesystem = "(string \<times> string option) list"

datatype error = ReadError string

definition path_exists :: "filesystem \<Rightarrow> string \<Rightarrow> bool" where
  "path_exists fs file_path = (map_of fs file_path \<noteq> None)"

definition read_text :: "filesystem \<Rightarrow> string \<Rightarrow> error + string" where
  "read_text fs file_path =
     (case map_of fs file_path of
        Some (Some content) \<Rightarrow> Inr content
      | _ \<Rightarrow> Inl (ReadError file_path))"

definition EN_FILE :: string where
  "EN_FILE = ''frontend/src/i18n/locales/en.ts''"

definition ZH_FILE :: string where
  "ZH_FILE = ''frontend/src/i18n/locales/zh.ts''"

definition TYPES_FILE :: string where
  "TYPES_FILE = ''frontend/src/i18n/types.ts''"

definition FRONTEND_DIR :: string where
  "FRONTEND_DIR = ''frontend/src''"

section \<open>The extractors\<close>

text \<open>
  \<open>extract_keys_from_locale\<close>: the key table and the category set of a locale file,
  with the lines printed. A missing file gives the empty table, the empty set and the
  warning; a file that cannot be read raises.
\<close>

definition extract_keys_from_locale ::
    "filesystem \<Rightarrow> string \<Rightarrow> error + (((string \<times> nat) list \<times> string set) \<times> string list)" where
  "extract_keys_from_locale fs file_path =
     (if \<not> path_exists fs file_path
      then Inr (([], {}), [''Warning: '' @ file_path @ '' not found''])
      else
        (case read_text fs file_path of
           Inl e \<Rightarrow> Inl e
         | Inr content \<Rightarrow>
             (let st = extract_from_text value_pattern content
              in Inr ((keys st, categories st), []))))"

text \<open>
  \<open>extract_keys_from_types\<close>: the same loop with the leaf pattern of the type file. It
  keeps no category set; the stack and the table evolve as in the locale extractor.
\<close>

definition extract_keys_from_types ::
    "filesystem \<Rightarrow> string \<Rightarrow> error + ((string \<times> nat) list \<times> string list)" where
  "extract_keys_from_types fs file_path =
     (if \<not> path_exists fs file_path
      then Inr ([], [''Warning: '' @ file_path @ '' not found''])
      else
        (case read_text fs file_path of
           Inl e \<Rightarrow> Inl e
         | Inr content \<Rightarrow> Inr (keys (extract_from_text type_value_pattern content), [])))"

section \<open>Call patterns\<close>

text \<open>
  The start of both call patterns, \<open>(?<!\w)t\(\s*['"`]\<close>: the character before is not a
  word character, then \<open>t(\<close>, whitespace and an opening quote. The result is the number
  of characters taken and the text after the quote.
\<close>

definition call_head :: "char option \<Rightarrow> string \<Rightarrow> (nat \<times> string) option" where
  "call_head prev s =
     (if (case prev of None \<Rightarrow> False | Some p \<Rightarrow> is_word p) then None
      else
        (case s of
           c # d # r \<Rightarrow>
             (if c = CHR ''t'' \<and> d = CHR ''(''
              then
                (case dropWhile is_space r of
                   [] \<Rightarrow> None
                 | q # r' \<Rightarrow>
                     (if is_quote q then Some (3 + length (takeWhile is_space r), r')
                      else None))
              else None)
         | _ \<Rightarrow> None))"

text \<open>\<open>\s*\)\<close>: the number of characters up to and with the closing parenthesis.\<close>

definition close_paren :: "string \<Rightarrow> nat option" where
  "close_paren s =
     (case dropWhile is_space s of
        [] \<Rightarrow> None
      | c # _ \<Rightarrow>
          (if c = CHR '')'' then Some (length (takeWhile is_space s) + 1) else None))"

text \<open>
  The lazy \<open>.+?\<close> after its first character: it takes one character more (any character,
  the pattern is compiled with \<open>re.DOTALL\<close>) as long as \<open>\s*\)\<close> does not match.
\<close>

fun lazy_args :: "string \<Rightarrow> nat option" where
  "lazy_args [] = None"
| "lazy_args (c # cs) =
     (case close_paren (c # cs) of
        Some n \<Rightarrow> Some n
      | None \<Rightarrow> map_option Suc (lazy_args cs))"

text \<open>
  The end of both call patterns, \<open>\s*(?:,.+?)?\s*\)\<close>. After the whitespace a comma
  opens the optional group, which then needs a character and a closing parenthesis
  somewhere after it; without the comma the parenthesis must follow at once. Giving
  whitespace back to the first \<open>\s*\<close> changes nothing: the second one takes it.
\<close>

definition call_tail :: "string \<Rightarrow> nat option" where
  "call_tail s =
     (let n = length (takeWhile is_space s)
      in case dropWhile is_space s of
           [] \<Rightarrow> None
         | c # r \<Rightarrow>
             (if c = CHR '')'' then Some (n + 1)
              else if c = CHR '','' then
                (case r of
                   [] \<Rightarrow> None
                 | x # rest \<Rightarrow> map_option (\<lambda>k. n + 2 + k) (lazy_args rest))
              else None))"

text \<open>
  The pattern of \<open>find_all_i18n_calls\<close>, verbose and dot-all:
  \<open>(?<!\w)t\(\s*['"`]([a-zA-Z0-9._\-]+)['"`]\s*(?:,.+?)?\s*\)\<close>. The key is the longest
  run of key characters, which a quote must follow.
\<close>

definition call_pattern :: "string matcher" where
  "call_pattern prev s =
     (case call_head prev s of
        None \<Rightarrow> None
      | Some (n, r) \<Rightarrow>
          (let key = takeWhile is_key_char r
           in if key = [] then None
              else
                (case dropWhile is_key_char r of
                   [] \<Rightarrow> None
                 | q # r' \<Rightarrow>
                     (if is_quote q
                      then map_option (\<lambda>k. (n + length key + 1 + k, key)) (call_tail r')
                      else None))))"

text \<open>
  The pattern of \<open>find_i18n_usage\<close> for one key, verbose and dot-all:
  \<open>(?<!\w)t\(\s*['"`](KEY)['"`]\s*(?:,.+?)?\s*\)\<close> with \<open>re.escape(key)\<close> for \<open>KEY\<close>, which
  matches the key's characters literally.
\<close>

definition key_call_pattern :: "string \<Rightarrow> string matcher" where
  "key_call_pattern key prev s =
     (case call_head prev s of
        None \<Rightarrow> None
      | Some (n, r) \<Rightarrow>
          (if take (length key) r \<noteq> key then None
           else
             (case drop (length key) r of
                [] \<Rightarrow> None
              | q # r' \<Rightarrow>
                  (if is_quote q
                   then map_option (\<lambda>k. (n + length key + 1 + k, key)) (call_tail r')
                   else None))))"

text \<open>
  The pattern of \<open>extract_label_keys_from_file\<close>, verbose:
  \<open>labelKey\s*:\s*['"`]([a-zA-Z0-9._\-]+)['"`]\<close>.
\<close>

definition label_key_pattern :: "string matcher" where
  "label_key_pattern prev s =
     (if take 8 s \<noteq> ''labelKey'' then None
      else
        (case dropWhile is_space (drop 8 s) of
           [] \<Rightarrow> None
         | c # r1 \<Rightarrow>
             (if c \<noteq> CHR '':'' then None
              else
                (case dropWhile is_space r1 of
                   [] \<Rightarrow> None
                 | q # r2 \<Rightarrow>
                     (if \<not> is_quote q then None
                      else
                        (let key = takeWhile is_key_char r2
                         in if key = [] then None
                            else
                              (case dropWhile is_key_char r2 of
                                 [] \<Rightarrow> None
                               | q' # r3 \<Rightarrow>
                                   (if is_quote q' then Some (length s - length r3, key)
                                    else None))))))))"

section \<open>The reference scanner\<close>

text \<open>
  \<open>search_dir.rglob("*" + suffix)\<close>: the files below the directory whose name ends
  with the suffix, in walk order. \<open>relative_to\<close> drops the directory and the separator.
\<close>

definition has_suffix :: "string \<Rightarrow> string \<Rightarrow> bool" where
  "has_suffix suffix p =
     (length suffix \<le> length p \<and> drop (length p - length suffix) p = suffix)"

definition rglob :: "filesystem \<Rightarrow> string \<Rightarrow> string \<Rightarrow> (string \<times> string option) list" where
  "rglob fs search_dir suffix =
     filter (\<lambda>(p, file). take (length search_dir + 1) p = search_dir @ ''/'' \<and> has_suffix suffix p) fs"

definition relative_to :: "string \<Rightarrow> string \<Rightarrow> string" where
  "relative_to search_dir file_path = drop (length search_dir + 1) file_path"

definition source_exts :: "string list" where
  "source_exts = [''.vue'', ''.ts'', ''.tsx'', ''.js'', ''.jsx'']"

text \<open>\<open>needle in haystack\<close> on strings.\<close>

fun contains :: "string \<Rightarrow> string \<Rightarrow> bool" where
  "contains needle [] = (needle = [])"
| "contains needle (c # cs) = (take (length needle) (c # cs) = needle \<or> contains needle cs)"

text \<open>
  A usage location is a relative path with a line number. The usage index maps a key to
  its locations; it is a dictionary in insertion order.
  \<open>if key not in d: d[key] = []\<close> followed by \<open>d[key].extend(locations)\<close>:
\<close>

type_synonym location = "string \<times> nat"

type_synonym usage_index = "(string \<times> location list) list"

fun extend_calls :: "string \<Rightarrow> location list \<Rightarrow> usage_index \<Rightarrow> usage_index" where
  "extend_calls key locations [] = [(key, locations)]"
| "extend_calls key locations ((k, ls) # rest) =
     (if k = key then (k, ls @ locations) # rest
      else (k, ls) # extend_calls key locations rest)"

text \<open>\<open>d.get(key, [])\<close>\<close>

definition usages_of :: "usage_index \<Rightarrow> string \<Rightarrow> location list" where
  "usages_of d key = (case map_of d key of None \<Rightarrow> [] | Some ls \<Rightarrow> ls)"

text \<open>
  \<open>find_i18n_usage\<close>: for every extension and every file of it outside the locale
  directory, the lines of the matches of the key's pattern in the stripped text. A file
  that cannot be read is skipped with a warning.
\<close>

definition usage_in_file :: "string \<Rightarrow> string \<Rightarrow> string \<times> string option \<Rightarrow> location list" where
  "usage_in_file key search_dir f =
     (case f of (file_path, file) \<Rightarrow>
        (if contains ''i18n/'' file_path then []
         else
           (case file of
              None \<Rightarrow> []
            | Some text \<Rightarrow>
                (let content = strip_comments text
                 in map (\<lambda>(start, n, g). (relative_to search_dir file_path, line_of content start))
                      (finditer (key_call_pattern key) content)))))"

definition find_i18n_usage :: "filesystem \<Rightarrow> string \<Rightarrow> string \<Rightarrow> location list" where
  "find_i18n_usage fs key search_dir =
     concat (map (\<lambda>ext. concat (map (usage_in_file key search_dir) (rglob fs search_dir ext)))
       source_exts)"

text \<open>
  \<open>extract_label_keys_from_file\<close>: the keys named by \<open>labelKey\<close> properties of one file,
  each with its locations.
\<close>

definition extract_label_keys_from_file :: "filesystem \<Rightarrow> string \<Rightarrow> string \<Rightarrow> usage_index" where
  "extract_label_keys_from_file fs file_path search_dir =
     (if \<not> path_exists fs file_path then []
      else
        (case read_text fs file_path of
           Inl e \<Rightarrow> []
         | Inr text \<Rightarrow>
             (let content = strip_comments text
              in fold (\<lambda>(start, n, key).
                        extend_calls key [(relative_to search_dir file_path, line_of content start)])
                   (finditer label_key_pattern content) [])))"

definition special_files :: "string list" where
  "special_files =
     [''composables/rules/useRuleOptions.ts'', ''composables/filter/useFilterFields.ts'']"

text \<open>
  \<open>find_all_i18n_calls\<close>: first the loop over the extensions and files, which adds the
  matches of the global pattern to the index, then the merge of the \<open>labelKey\<close> keys of
  the special files that exist.
\<close>

definition calls_in_file :: "string \<Rightarrow> string \<times> string option \<Rightarrow> usage_index \<Rightarrow> usage_index" where
  "calls_in_file search_dir f all_calls =
     (case f of (file_path, file) \<Rightarrow>
        (if contains ''i18n/'' file_path then all_calls
         else
           (case file of
              None \<Rightarrow> all_calls
            | Some text \<Rightarrow>
                (let content = strip_comments text
                 in fold (\<lambda>(start, n, key).
                           extend_calls key [(relative_to search_dir file_path, line_of content start)])
                      (finditer call_pattern content) all_calls))))"

definition direct_calls :: "filesystem \<Rightarrow> string \<Rightarrow> usage_index" where
  "direct_calls fs search_dir =
     fold (\<lambda>ext all_calls. fold (calls_in_file search_dir) (rglob fs search_dir ext) all_calls)
       source_exts []"

definition merge_label_keys :: "filesystem \<Rightarrow> string \<Rightarrow> string \<Rightarrow> usage_index \<Rightarrow> usage_index" where
  "merge_label_keys fs search_dir special_file all_calls =
     (let file_path = search_dir @ ''/'' @ special_file
      in if path_exists fs file_path
         then fold (\<lambda>(key, locations). extend_calls key locations)
                (extract_label_keys_from_file fs file_path search_dir) all_calls
         else all_calls)"

definition find_all_i18n_calls :: "filesystem \<Rightarrow> string \<Rightarrow> usage_index" where
  "find_all_i18n_calls fs search_dir =
     fold (merge_label_keys fs search_dir) special_files (direct_calls fs search_dir)"

section \<open>Reconciliation\<close>

text \<open>
  What \<open>main\<close> computes before it writes the report: the three tables, the category sets,
  the sorted key lists, the usage index, and the missing, unused and inconsistent keys,
  with the warnings of the extractors.
\<close>

record analysis =
  en_keys :: "(string \<times> nat) list"
  en_categories :: "string set"
  zh_keys :: "(string \<times> nat) list"
  zh_categories :: "string set"
  types_keys :: "(string \<times> nat) list"
  all_categories :: "string set"
  all_keys :: "string list"
  filtered_keys :: "string list"
  all_calls :: usage_index
  missing_keys :: "string set"
  label_key_usage :: "string set"
  unused_keys :: "string list"
  missing_in_zh_filtered :: "string list"
  missing_in_en_filtered :: "string list"
  warnings :: "string list"

text \<open>
  The keys that \<open>labelKey\<close> properties of the special files name:
  \<open>label_key_usage.update(label_keys.keys())\<close> for every special file that exists.
\<close>

definition collect_label_keys :: "filesystem \<Rightarrow> string \<Rightarrow> string set" where
  "collect_label_keys fs search_dir =
     fold (\<lambda>special_file used.
             (let file_path = search_dir @ ''/'' @ special_file
              in if path_exists fs file_path
                 then used \<union> set (map fst (extract_label_keys_from_file fs file_path search_dir))
                 else used))
       special_files {}"

text \<open>The loop that collects the unused keys.\<close>

fun unused_loop :: "filesystem \<Rightarrow> string set \<Rightarrow> string list \<Rightarrow> string list" where
  "unused_loop fs used_labels [] = []"
| "unused_loop fs used_labels (key # rest) =
     (let usages = find_i18n_usage fs key FRONTEND_DIR;
          used_in_label_key = (key \<in> used_labels)
      in if length usages = 0 \<and> \<not> used_in_label_key
         then key # unused_loop fs used_labels rest
         else unused_loop fs used_labels rest)"

definition reconcile ::
    "filesystem \<Rightarrow> (string \<times> nat) list \<Rightarrow> string set \<Rightarrow> (string \<times> nat) list \<Rightarrow> string set \<Rightarrow>
       (string \<times> nat) list \<Rightarrow> string list \<Rightarrow> analysis" where
  "reconcile fs en_ks en_cats zh_ks zh_cats types_ks out =
     (let cats = en_cats \<union> zh_cats;
          ks = sorted_list_of_set (set (map fst en_ks) \<union> set (map fst zh_ks) \<union> set (map fst types_ks));
          filtered = filter (\<lambda>key. key \<notin> cats) ks;
          calls = find_all_i18n_calls fs FRONTEND_DIR;
          labels = collect_label_keys fs FRONTEND_DIR
      in \<lparr>en_keys = en_ks,
          en_categories = en_cats,
          zh_keys = zh_ks,
          zh_categories = zh_cats,
          types_keys = types_ks,
          all_categories = cats,
          all_keys = ks,
          filtered_keys = filtered,
          all_calls = calls,
          missing_keys = set (map fst calls) - set ks,
          label_key_usage = labels,
          unused_keys = unused_loop fs labels filtered,
          missing_in_zh_filtered =
            filter (\<lambda>k. k \<notin> cats)
              (sorted_list_of_set (set (map fst en_ks) - set (map fst zh_ks))),
          missing_in_en_filtered =
            filter (\<lambda>k. k \<notin> cats)
              (sorted_list_of_set (set (map fst zh_ks) - set (map fst en_ks))),
          warnings = out\<rparr>)"

definition main_analysis :: "filesystem \<Rightarrow> error + analysis" where
  "main_analysis fs =
     (case extract_keys_from_locale fs EN_FILE of
        Inl e \<Rightarrow> Inl e
      | Inr ((en_ks, en_cats), out1) \<Rightarrow>
          (case extract_keys_from_locale fs ZH_FILE of
             Inl e \<Rightarrow> Inl e
           | Inr ((zh_ks, zh_cats), out2) \<Rightarrow>
               (case extract_keys_from_types fs TYPES_FILE of
                  Inl e \<Rightarrow> Inl e
                | Inr (types_ks, out3) \<Rightarrow>
                    Inr (reconcile fs en_ks en_cats zh_ks zh_cats types_ks (out1 @ out2 @ out3)))))"

section \<open>Example inputs\<close>

text \<open>
  The nesting of the indentation closing rule: \<open>a\<close> at column 0, \<open>b\<close> at 2, \<open>c\<close> at 4,
  then \<open>d\<close> back at 2 with the leaf \<open>e\<close>, the category \<open>f\<close> and its leaf \<open>g\<close> below it.
\<close>

definition closing_example :: string where
  "closing_example = ''a: {\<newline>  b: {\<newline>    c: 'x'\<newline>  d: {\<newline>    e: 'y'\<newline>    f: {\<newline>      g: 'z'\<newline>''"

text \<open>
  The same nesting with an empty line between \<open>d: {\<close> and its leaf: line 5 is empty and
  \<open>e\<close> is declared on line 6, at column 4.
\<close>

definition blank_line_example :: string where
  "blank_line_example = ''a: {\<newline>  b: {\<newline>    c: 'x'\<newline>  d: {\<newline>\<newline>    e: 'y'\<newline>''"

text \<open>
  A locale text and a type text with a comment on line 2 and the key \<open>b\<close> declared twice,
  on lines 3 and 4.
\<close>

definition comment_line_example :: string where
  "comment_line_example = ''a: 'x',\<newline>// note\<newline>b: 'y',\<newline>b: 'z',\<newline>''"

definition comment_line_types_example :: string where
  "comment_line_types_example = ''a: string;\<newline>// note\<newline>b: string;\<newline>b: string;\<newline>''"

text \<open>A project with one locale file.\<close>

definition locale_example :: filesystem where
  "locale_example =
     [(''frontend/src/i18n/locales/en.ts'', Some ''common: {\<newline>  save: 'Save',\<newline>},\<newline>title: 'MrRSS',\<newline>'')]"


text \<open>
  A project whose code calls \<open>t('a')\<close> while \<open>a\<close> is declared as a category of the
  English locale, and the analysis of it.
\<close>

definition category_call_example :: filesystem where
  "category_call_example =
     [(''frontend/src/App.ts'', Some ''label = t('a')''),
      (''frontend/src/i18n/locales/en.ts'', Some ''a: {\<newline>  b: 'x',\<newline>}'')]"

definition category_call_analysis :: analysis where
  "category_call_analysis =
     \<lparr>en_keys = [(''a'', 1), (''a.b'', 2)], en_categories = {''a''},
      zh_keys = [], zh_categories = {}, types_keys = [],
      all_categories = {''a''}, all_keys = [''a'', ''a.b''],
      filtered_keys = [''a.b''], all_calls = [(''a'', [(''App.ts'', 1)])],
      missing_keys = {}, label_key_usage = {}, unused_keys = [''a.b''],
      missing_in_zh_filtered = [''a.b''], missing_in_en_filtered = [],
      warnings =
        [''Warning: frontend/src/i18n/locales/zh.ts not found'',
         ''Warning: frontend/src/i18n/types.ts not found'']\<rparr>"

text \<open>
  A project where \<open>a\<close> is a category in the English locale and in the type file, a leaf in
  the Chinese locale, and called in the code; and the analysis of it.
\<close>

definition mixed_category_example :: filesystem where
  "mixed_category_example =
     [(''frontend/src/App.ts'', Some ''label = t('a')''),
      (''frontend/src/i18n/locales/en.ts'', Some ''a: {\<newline>  b: 'x',\<newline>}''),
      (''frontend/src/i18n/locales/zh.ts'', Some ''a: 'leaf',\<newline>''),
      (''frontend/src/i18n/types.ts'', Some ''a: {\<newline>  b: string;\<newline>}'')]"

definition mixed_category_analysis :: analysis where
  "mixed_category_analysis =
     \<lparr>en_keys = [(''a'', 1), (''a.b'', 2)], en_categories = {''a''},
      zh_keys = [(''a'', 1)], zh_categories = {},
      types_keys = [(''a'', 1), (''a.b'', 2)], all_categories = {''a''},
      all_keys = [''a'', ''a.b''], filtered_keys = [''a.b''],
      all_calls = [(''a'', [(''App.ts'', 1)])], missing_keys = {},
      label_key_usage = {}, unused_keys = [''a.b''],
      missing_in_zh_filtered = [''a.b''], missing_in_en_filtered = [],
      warnings = []\<rparr>"

text \<open>
  A project with three leaves under \<open>foo\<close>: one called in a component, one named by a
  \<open>labelKey\<close> property of a special file, one not referenced at all; and the analysis
  of it.
\<close>

definition unused_example :: filesystem where
  "unused_example =
     [(''frontend/src/App.vue'', Some ''<p>{{ t('foo.bar') }}</p>''),
      (''frontend/src/composables/rules/useRuleOptions.ts'', Some ''{ labelKey: 'foo.qux' }''),
      (''frontend/src/i18n/locales/en.ts'',
       Some ''foo: {\<newline>  bar: 'Bar',\<newline>  baz: 'Baz',\<newline>  qux: 'Qux',\<newline>}'')]"

definition unused_analysis :: analysis where
  "unused_analysis =
     \<lparr>en_keys = [(''foo'', 1), (''foo.bar'', 2), (''foo.baz'', 3), (''foo.qux'', 4)],
      en_categories = {''foo''}, zh_keys = [], zh_categories = {},
      types_keys = [], all_categories = {''foo''},
      all_keys = [''foo'', ''foo.bar'', ''foo.baz'', ''foo.qux''],
      filtered_keys = [''foo.bar'', ''foo.baz'', ''foo.qux''],
      all_calls =
        [(''foo.bar'', [(''App.vue'', 1)]),
         (''foo.qux'', [(''composables/rules/useRuleOptions.ts'', 1)])],
      missing_keys = {}, label_key_usage = {''foo.qux''},
      unused_keys = [''foo.baz''],
      missing_in_zh_filtered = [''foo.bar'', ''foo.baz'', ''foo.qux''],
      missing_in_en_filtered = [],
      warnings =
        [''Warning: frontend/src/i18n/locales/zh.ts not found'',
         ''Warning: frontend/src/i18n/types.ts not found'']\<rparr>"


section \<open>Positions of matches\<close>

text \<open>
  The character before the position that follows the prefix \<open>pre\<close> of a text, when
  \<open>prev\<close> is the character before the text.
\<close>

definition before :: "char option \<Rightarrow> string \<Rightarrow> char option" where
  "before prev pre = (if pre = [] then prev else Some (last pre))"

text \<open>
  The locations the loop of \<open>find_all_i18n_calls\<close> adds for one key from one file: one
  for every match of the global pattern whose key literal is that key.
\<close>

definition file_calls :: "string \<Rightarrow> string \<times> string option \<Rightarrow> string \<Rightarrow> location set" where
  "file_calls search_dir f key =
     (case f of (file_path, file) \<Rightarrow>
        (if contains ''i18n/'' file_path then {}
         else
           (case file of
              None \<Rightarrow> {}
            | Some text \<Rightarrow>
                {(relative_to search_dir file_path, line_of (strip_comments text) start) | start n.
                   (start, n, key) \<in> set (finditer call_pattern (strip_comments text))})))"

section \<open>More example inputs\<close>

text \<open>
  A line on which \<open>t(\<close> ends two longer identifiers before the real call.
\<close>

definition lookbehind_example :: string where
  "lookbehind_example = ''createElement('x'); closest('y'); t('z')''"

text \<open>A project with one source file, in which a call is an argument of another call.\<close>

definition nested_call_example :: filesystem where
  "nested_call_example = [(''frontend/src/App.ts'', Some ''label = t('a', t('b'))'')]"

text \<open>
  A locale text with a block comment that runs over two lines: \<open>a\<close> is declared on line
  1, \<open>b\<close> on line 3.
\<close>

definition block_comment_example :: string where
  "block_comment_example = ''a: 'x', /* first\<newline>second */\<newline>b: 'y',\<newline>''"


section \<open>The category set and the key table\<close>

lemma record_key_dom: "fst ` set (record_key k n ks) = insert k (fst ` set ks)"
  by (auto simp: record_key_def)

lemma process_match_categories_keys:
  assumes "categories st \<subseteq> fst ` set (keys st)"
  shows "categories (process_match lines m st) \<subseteq> fst ` set (keys (process_match lines m st))"
proof -
  obtain position line_num key is_category where m: "m = (position, line_num, key, is_category)"
    by (cases m) auto
  show ?thesis
    using assms by (cases is_category) (auto simp: process_match_def m Let_def record_key_dom)
qed

lemma process_matches_categories_keys:
  "categories st \<subseteq> fst ` set (keys st) \<Longrightarrow>
   categories (process_matches lines ms st) \<subseteq> fst ` set (keys (process_matches lines ms st))"
  unfolding process_matches_def
proof (induction ms arbitrary: st)
  case Nil
  then show ?case by simp
next
  case (Cons m ms)
  from Cons.prems have "categories (process_match lines m st) \<subseteq> fst ` set (keys (process_match lines m st))"
    by (rule process_match_categories_keys)
  then show ?case using Cons.IH by simp
qed

lemma extract_from_text_categories_keys:
  "categories (extract_from_text leaf content) \<subseteq> fst ` set (keys (extract_from_text leaf content))"
  unfolding extract_from_text_def Let_def
  by (rule process_matches_categories_keys) (simp add: empty_extraction_def)

lemma locale_categories_in_table:
  assumes "extract_keys_from_locale fs file_path = Inr ((ks, cats), out)"
  shows "cats \<subseteq> fst ` set ks"
proof (cases "path_exists fs file_path")
  case False
  with assms show ?thesis by (simp add: extract_keys_from_locale_def)
next
  case True
  with assms obtain content where
    "ks = keys (extract_from_text value_pattern content)"
    "cats = categories (extract_from_text value_pattern content)"
    by (auto simp: extract_keys_from_locale_def Let_def split: sum.splits)
  then show ?thesis by (simp add: extract_from_text_categories_keys)
qed

text \<open>
  Claim C10. For every locale file the extractor reads, the category set it returns is a
  subset of the keys of the table it returns: every path marked as a category has a
  recorded line number.
\<close>

theorem categories_declared:
  assumes "extract_keys_from_locale fs file_path = Inr ((ks, cats), out)"
  shows "cats \<subseteq> fst ` set ks"
proof (cases "path_exists fs file_path")
  case False
  with assms have "cats = {}" by (simp add: extract_keys_from_locale_def)
  then show ?thesis by simp
next
  case True
  with assms obtain content where
    ks: "ks = keys (extract_from_text value_pattern content)" and
    cats: "cats = categories (extract_from_text value_pattern content)"
    by (auto simp: extract_keys_from_locale_def Let_def split: sum.splits)
  show ?thesis unfolding ks cats by (rule extract_from_text_categories_keys)
qed

theorem categories_declared_witness:
  "extract_keys_from_locale locale_example EN_FILE =
     Inr (([(''common'', 1), (''common.save'', 2), (''title'', 4)], {''common''}), []) \<and>
   {''common''} \<subseteq> fst ` set [(''common'', 1::nat), (''common.save'', 2), (''title'', 4)]"
proof -
  have e: "extract_keys_from_locale locale_example EN_FILE =
     Inr (([(''common'', 1), (''common.save'', 2), (''title'', 4)], {''common''}), [])"
    by code_simp
  from categories_declared [OF e] e show ?thesis by simp
qed

section \<open>The first declaration wins\<close>

text \<open>
  A path the table holds keeps its line number through the rest of the loop: the loop
  body stores a line only for a path that is not yet in the table.
\<close>

lemma record_key_kept:
  "map_of ks k = Some n \<Longrightarrow> map_of (record_key k' n' ks) k = Some n"
  by (auto simp: record_key_def map_add_def split: option.splits)

lemma process_match_kept:
  assumes "map_of (keys st) k = Some n"
  shows "map_of (keys (process_match lines m st)) k = Some n"
proof -
  obtain position line_num key is_category where m: "m = (position, line_num, key, is_category)"
    by (cases m) auto
  show ?thesis
    using assms by (cases is_category) (simp_all add: process_match_def m Let_def record_key_kept)
qed

lemma process_matches_kept:
  "map_of (keys st) k = Some n \<Longrightarrow> map_of (keys (process_matches lines ms st)) k = Some n"
  unfolding process_matches_def
  by (induction ms arbitrary: st) (simp_all add: process_match_kept)

text \<open>
  Claim C6 is not what the code does. The first declaration wins, but the line the
  table stores is the line on which the match starts, and a match starts at the first
  line start from which only whitespace leads to the key: the leading \<open>\s*\<close> of the
  patterns runs over line ends. In the example texts the comment on line 2 is stripped
  to an empty line, the match of the first \<open>b\<close> starts there, and the table of the locale
  file and that of the type file store line 2 for \<open>b\<close>, which is declared on lines 3
  and 4.
\<close>

theorem first_declaration_line_shifted:
  "extract_keys_from_locale [(EN_FILE, Some comment_line_example)] EN_FILE =
     Inr (([(''a'', 1), (''b'', 2)], {}), []) \<and>
   extract_keys_from_types [(TYPES_FILE, Some comment_line_types_example)] TYPES_FILE =
     Inr ([(''a'', 1), (''b'', 2)], []) \<and>
   all_matches value_pattern (strip_comments comment_line_example) =
     [(0, 1, ''a'', False), (8, 2, ''b'', False), (17, 4, ''b'', False)] \<and>
   split_lines comment_line_example ! 1 = ''// note'' \<and>
   take 2 (split_lines comment_line_example ! 2) = ''b:'' \<and>
   take 2 (split_lines comment_line_example ! 3) = ''b:'' \<and>
   split_lines comment_line_types_example ! 1 = ''// note'' \<and>
   take 2 (split_lines comment_line_types_example ! 2) = ''b:'' \<and>
   take 2 (split_lines comment_line_types_example ! 3) = ''b:''"
proof -
  have a: "extract_keys_from_locale [(EN_FILE, Some comment_line_example)] EN_FILE =
     Inr (([(''a'', 1), (''b'', 2)], {}), [])"
    by code_simp
  have b: "extract_keys_from_types [(TYPES_FILE, Some comment_line_types_example)] TYPES_FILE =
     Inr ([(''a'', 1), (''b'', 2)], [])"
    by code_simp
  have c: "all_matches value_pattern (strip_comments comment_line_example) =
     [(0, 1, ''a'', False), (8, 2, ''b'', False), (17, 4, ''b'', False)]"
    by code_simp
  have d: "split_lines comment_line_example ! 1 = ''// note'' \<and>
     take 2 (split_lines comment_line_example ! 2) = ''b:'' \<and>
     take 2 (split_lines comment_line_example ! 3) = ''b:''"
    by code_simp
  have e: "split_lines comment_line_types_example ! 1 = ''// note'' \<and>
     take 2 (split_lines comment_line_types_example ! 2) = ''b:'' \<and>
     take 2 (split_lines comment_line_types_example ! 3) = ''b:''"
    by code_simp
  from a b c d e show ?thesis by blast
qed

section \<open>The indentation closing rule\<close>

text \<open>
  The indentations on the stack increase strictly from the bottom to the top on every
  stack the loop can reach, so popping from the top while the top entry's indentation
  is at least that of the match leaves exactly the entries of smaller indentation.
\<close>

lemma pop_stack_filter:
  "sorted_wrt (<) (map snd stack) \<Longrightarrow> pop_stack stack n = filter (\<lambda>e. snd e < n) stack"
proof (induction stack rule: rev_induct)
  case Nil
  show ?case by (subst pop_stack.simps) simp
next
  case (snoc x xs)
  from snoc.prems have sorted_xs: "sorted_wrt (<) (map snd xs)"
    and below: "\<forall>e\<in>set xs. snd e < snd x"
    by (auto simp: sorted_wrt_append)
  show ?case
  proof (cases "n \<le> snd x")
    case True
    then have "pop_stack (xs @ [x]) n = pop_stack xs n"
      by (subst pop_stack.simps) simp
    with True snoc.IH [OF sorted_xs] show ?thesis by simp
  next
    case False
    then have "pop_stack (xs @ [x]) n = xs @ [x]"
      by (subst pop_stack.simps) simp
    moreover from False below have "filter (\<lambda>e. snd e < n) xs = xs"
      by (auto intro!: filter_True)
    ultimately show ?thesis using False by simp
  qed
qed

lemma process_match_sorted:
  assumes "sorted_wrt (<) (map snd (path_stack st))"
  shows "sorted_wrt (<) (map snd (path_stack (process_match lines m st)))"
proof -
  obtain position line_num key is_category where m: "m = (position, line_num, key, is_category)"
    by (cases m) auto
  let ?n = "indent_of lines line_num"
  have f: "sorted_wrt (<) (map snd (filter (\<lambda>e. snd e < ?n) (path_stack st)))"
    using assms by (simp add: sorted_wrt_map sorted_wrt_filter)
  show ?thesis
    using f by (cases is_category)
      (auto simp: process_match_def m Let_def pop_stack_filter [OF assms] sorted_wrt_append)
qed

lemma process_matches_sorted:
  "sorted_wrt (<) (map snd (path_stack st)) \<Longrightarrow>
   sorted_wrt (<) (map snd (path_stack (process_matches lines ms st)))"
  unfolding process_matches_def
  by (induction ms arbitrary: st) (simp_all add: process_match_sorted)

lemma reachable_sorted:
  "sorted_wrt (<) (map snd (path_stack (process_matches lines ms empty_extraction)))"
  by (rule process_matches_sorted) (simp add: empty_extraction_def)

lemma pop_stack_reachable:
  "pop_stack (path_stack (process_matches lines ms empty_extraction)) n =
     filter (\<lambda>e. snd e < n) (path_stack (process_matches lines ms empty_extraction))"
  by (rule pop_stack_filter) (rule reachable_sorted)

text \<open>
  Claim C1 is not what the code does. The stack is popped as the claim says, but the
  indentation the loop compares is that of the line on which the match starts, which
  is not always the line of the declaration: the leading \<open>\s*\<close> of the patterns runs
  over line ends, so after an empty line the match starts on the empty line. For the
  nesting of the claim the keys under \<open>d\<close> get the prefix \<open>a.d\<close>; with an empty line
  between \<open>d: {\<close> and \<open>e\<close> the match of \<open>e\<close> starts on line 5, its indentation is
  measured as 0, every open category is closed, and \<open>e\<close>, declared under \<open>d\<close> on line 6
  at column 4, is stored as the top-level key \<open>e\<close>.
\<close>

theorem blank_line_closes_every_scope:
  "extract_keys_from_locale [(EN_FILE, Some closing_example)] EN_FILE =
     Inr (([(''a'', 1), (''a.b'', 2), (''a.b.c'', 3), (''a.d'', 4), (''a.d.e'', 5),
            (''a.d.f'', 6), (''a.d.f.g'', 7)],
           {''a'', ''a.b'', ''a.d'', ''a.d.f''}), []) \<and>
   extract_keys_from_locale [(EN_FILE, Some blank_line_example)] EN_FILE =
     Inr (([(''a'', 1), (''a.b'', 2), (''a.b.c'', 3), (''a.d'', 4), (''e'', 5)],
           {''a'', ''a.b'', ''a.d''}), []) \<and>
   all_matches value_pattern (strip_comments blank_line_example) =
     [(0, 1, ''a'', True), (5, 2, ''b'', True), (12, 3, ''c'', False), (23, 4, ''d'', True),
      (30, 5, ''e'', False)] \<and>
   map (indent_of (split_lines blank_line_example)) [1, 2, 3, 4, 5, 6] = [0, 2, 4, 2, 0, 4] \<and>
   split_lines blank_line_example ! 3 = ''  d: {'' \<and>
   split_lines blank_line_example ! 4 = [] \<and>
   take 6 (split_lines blank_line_example ! 5) = ''    e:''"
proof -
  have a: "extract_keys_from_locale [(EN_FILE, Some closing_example)] EN_FILE =
     Inr (([(''a'', 1), (''a.b'', 2), (''a.b.c'', 3), (''a.d'', 4), (''a.d.e'', 5),
            (''a.d.f'', 6), (''a.d.f.g'', 7)],
           {''a'', ''a.b'', ''a.d'', ''a.d.f''}), [])"
    by code_simp
  have b: "extract_keys_from_locale [(EN_FILE, Some blank_line_example)] EN_FILE =
     Inr (([(''a'', 1), (''a.b'', 2), (''a.b.c'', 3), (''a.d'', 4), (''e'', 5)],
           {''a'', ''a.b'', ''a.d''}), [])"
    by code_simp
  have c: "all_matches value_pattern (strip_comments blank_line_example) =
     [(0, 1, ''a'', True), (5, 2, ''b'', True), (12, 3, ''c'', False), (23, 4, ''d'', True),
      (30, 5, ''e'', False)]"
    by code_simp
  have d: "map (indent_of (split_lines blank_line_example)) [1, 2, 3, 4, 5, 6] = [0, 2, 4, 2, 0, 4]"
    by code_simp
  have e: "split_lines blank_line_example ! 3 = ''  d: {'' \<and>
     split_lines blank_line_example ! 4 = [] \<and>
     take 6 (split_lines blank_line_example ! 5) = ''    e:''"
    by code_simp
  from a b c d e show ?thesis by blast
qed

section \<open>Properties of the reconciliation\<close>

lemma category_call_run: "main_analysis category_call_example = Inr category_call_analysis"
  by code_simp

lemma main_analysis_Inr:
  assumes "main_analysis fs = Inr r"
  obtains en_ks en_cats out1 zh_ks zh_cats out2 types_ks out3 where
    "extract_keys_from_locale fs EN_FILE = Inr ((en_ks, en_cats), out1)"
    "extract_keys_from_locale fs ZH_FILE = Inr ((zh_ks, zh_cats), out2)"
    "extract_keys_from_types fs TYPES_FILE = Inr (types_ks, out3)"
    "r = reconcile fs en_ks en_cats zh_ks zh_cats types_ks (out1 @ out2 @ out3)"
  using assms
  by (auto simp: main_analysis_def split: sum.splits prod.splits)

lemma reconcile_fields:
  "en_keys (reconcile fs a b c d e out) = a"
  "en_categories (reconcile fs a b c d e out) = b"
  "zh_keys (reconcile fs a b c d e out) = c"
  "zh_categories (reconcile fs a b c d e out) = d"
  "types_keys (reconcile fs a b c d e out) = e"
  "all_categories (reconcile fs a b c d e out) = b \<union> d"
  "set (all_keys (reconcile fs a b c d e out)) = fst ` set a \<union> fst ` set c \<union> fst ` set e"
  "set (filtered_keys (reconcile fs a b c d e out)) =
     (fst ` set a \<union> fst ` set c \<union> fst ` set e) - (b \<union> d)"
  "all_calls (reconcile fs a b c d e out) = find_all_i18n_calls fs FRONTEND_DIR"
  "missing_keys (reconcile fs a b c d e out) =
     fst ` set (find_all_i18n_calls fs FRONTEND_DIR) - (fst ` set a \<union> fst ` set c \<union> fst ` set e)"
  "label_key_usage (reconcile fs a b c d e out) = collect_label_keys fs FRONTEND_DIR"
  "unused_keys (reconcile fs a b c d e out) =
     unused_loop fs (collect_label_keys fs FRONTEND_DIR) (filtered_keys (reconcile fs a b c d e out))"
  "warnings (reconcile fs a b c d e out) = out"
  by (auto simp: reconcile_def Let_def)

lemma set_unused_loop:
  "set (unused_loop fs used ks) =
     {k \<in> set ks. find_i18n_usage fs k FRONTEND_DIR = [] \<and> k \<notin> used}"
  by (induction ks) (auto simp: Let_def)

lemma mixed_category_run: "main_analysis mixed_category_example = Inr mixed_category_analysis"
  by code_simp

lemma unused_run: "main_analysis unused_example = Inr unused_analysis"
  by code_simp

text \<open>
  Claim C3, as the specification states it, fails: the missing keys are not the keys of
  the usage index minus the filtered key list. A key that the code calls and that a
  locale declares as a category is in the first set, outside the second, and not
  missing.
\<close>

theorem missing_keys_category_counterexample:
  "main_analysis category_call_example = Inr category_call_analysis \<and>
   ''a'' \<in> fst ` set (all_calls category_call_analysis) \<and>
   ''a'' \<in> all_categories category_call_analysis \<and>
   ''a'' \<notin> set (filtered_keys category_call_analysis) \<and>
   ''a'' \<notin> missing_keys category_call_analysis \<and>
   missing_keys category_call_analysis \<noteq>
     fst ` set (all_calls category_call_analysis) - set (filtered_keys category_call_analysis)"
proof -
  have "''a'' \<in> fst ` set (all_calls category_call_analysis) - set (filtered_keys category_call_analysis)"
    by (simp add: category_call_analysis_def)
  moreover have "missing_keys category_call_analysis = {}"
    by (simp add: category_call_analysis_def)
  ultimately show ?thesis
    using category_call_run by (auto simp: category_call_analysis_def)
qed

text \<open>
  Claim C3, amended. The filtered key list holds the keys of the three tables minus the
  categories; the missing keys are the keys of the usage index minus the keys of the
  three tables, categories included; so no category is ever missing.
\<close>

theorem missing_keys_are_undeclared:
  assumes "main_analysis fs = Inr r"
  shows "set (filtered_keys r) =
           (fst ` set (en_keys r) \<union> fst ` set (zh_keys r) \<union> fst ` set (types_keys r)) -
           all_categories r \<and>
         missing_keys r =
           fst ` set (all_calls r) -
           (fst ` set (en_keys r) \<union> fst ` set (zh_keys r) \<union> fst ` set (types_keys r)) \<and>
         all_categories r \<inter> missing_keys r = {}"
proof -
  from assms obtain en_ks en_cats out1 zh_ks zh_cats out2 types_ks out3 where
    en: "extract_keys_from_locale fs EN_FILE = Inr ((en_ks, en_cats), out1)" and
    zh: "extract_keys_from_locale fs ZH_FILE = Inr ((zh_ks, zh_cats), out2)" and
    r: "r = reconcile fs en_ks en_cats zh_ks zh_cats types_ks (out1 @ out2 @ out3)"
    by (rule main_analysis_Inr)
  from en have "en_cats \<subseteq> fst ` set en_ks" by (rule locale_categories_in_table)
  moreover from zh have "zh_cats \<subseteq> fst ` set zh_ks" by (rule locale_categories_in_table)
  ultimately show ?thesis
    unfolding r reconcile_fields by auto
qed

theorem missing_keys_are_undeclared_witness:
  "main_analysis category_call_example = Inr category_call_analysis \<and>
   set (filtered_keys category_call_analysis) =
     (fst ` set (en_keys category_call_analysis) \<union> fst ` set (zh_keys category_call_analysis) \<union>
      fst ` set (types_keys category_call_analysis)) - all_categories category_call_analysis \<and>
   missing_keys category_call_analysis =
     fst ` set (all_calls category_call_analysis) -
     (fst ` set (en_keys category_call_analysis) \<union> fst ` set (zh_keys category_call_analysis) \<union>
      fst ` set (types_keys category_call_analysis)) \<and>
   all_categories category_call_analysis \<inter> missing_keys category_call_analysis = {} \<and>
   all_categories category_call_analysis = {''a''} \<and>
   all_calls category_call_analysis = [(''a'', [(''App.ts'', 1)])]"
  using missing_keys_are_undeclared [OF category_call_run] category_call_run
  by (simp add: category_call_analysis_def)

text \<open>
  Claim C4. A key that a locale file declares as a category is in none of the filtered
  key list, the missing keys and the unused keys, whatever the other files declare it
  as.
\<close>

theorem category_exclusion:
  assumes "main_analysis fs = Inr r" and "k \<in> en_categories r \<union> zh_categories r"
  shows "k \<notin> set (filtered_keys r) \<and> k \<notin> missing_keys r \<and> k \<notin> set (unused_keys r)"
proof -
  from assms(1) obtain en_ks en_cats out1 zh_ks zh_cats out2 types_ks out3 where
    en: "extract_keys_from_locale fs EN_FILE = Inr ((en_ks, en_cats), out1)" and
    zh: "extract_keys_from_locale fs ZH_FILE = Inr ((zh_ks, zh_cats), out2)" and
    r: "r = reconcile fs en_ks en_cats zh_ks zh_cats types_ks (out1 @ out2 @ out3)"
    by (rule main_analysis_Inr)
  from en have "en_cats \<subseteq> fst ` set en_ks" by (rule locale_categories_in_table)
  moreover from zh have "zh_cats \<subseteq> fst ` set zh_ks" by (rule locale_categories_in_table)
  ultimately show ?thesis
    using assms(2) unfolding r reconcile_fields set_unused_loop by auto
qed

theorem category_exclusion_witness:
  "main_analysis mixed_category_example = Inr mixed_category_analysis \<and>
   ''a'' \<in> en_categories mixed_category_analysis \<union> zh_categories mixed_category_analysis \<and>
   (''a'', 1) \<in> set (zh_keys mixed_category_analysis) \<and>
   ''a'' \<in> fst ` set (all_calls mixed_category_analysis) \<and>
   ''a'' \<notin> set (filtered_keys mixed_category_analysis) \<and>
   ''a'' \<notin> missing_keys mixed_category_analysis \<and>
   ''a'' \<notin> set (unused_keys mixed_category_analysis)"
proof -
  have c: "''a'' \<in> en_categories mixed_category_analysis \<union> zh_categories mixed_category_analysis"
    by (simp add: mixed_category_analysis_def)
  from category_exclusion [OF mixed_category_run c] mixed_category_run c show ?thesis
    by (simp add: mixed_category_analysis_def)
qed

text \<open>
  Claim C5. A key of the filtered key list is unused if and only if the scan of the
  source tree for it finds no usage and no \<open>labelKey\<close> property of a special file names
  it.
\<close>

theorem unused_keys_rule:
  assumes "main_analysis fs = Inr r" and "k \<in> set (filtered_keys r)"
  shows "k \<in> set (unused_keys r) \<longleftrightarrow>
           find_i18n_usage fs k FRONTEND_DIR = [] \<and> k \<notin> label_key_usage r"
proof -
  from assms(1) obtain en_ks en_cats out1 zh_ks zh_cats out2 types_ks out3 where
    r: "r = reconcile fs en_ks en_cats zh_ks zh_cats types_ks (out1 @ out2 @ out3)"
    by (rule main_analysis_Inr)
  show ?thesis
    using assms(2) unfolding r reconcile_fields(11,12) set_unused_loop by simp
qed

theorem unused_keys_rule_witness:
  "main_analysis unused_example = Inr unused_analysis \<and>
   ''foo.baz'' \<in> set (filtered_keys unused_analysis) \<and>
   find_i18n_usage unused_example ''foo.baz'' FRONTEND_DIR = [] \<and>
   ''foo.baz'' \<notin> label_key_usage unused_analysis \<and>
   ''foo.baz'' \<in> set (unused_keys unused_analysis) \<and>
   ''foo.bar'' \<in> set (filtered_keys unused_analysis) \<and>
   find_i18n_usage unused_example ''foo.bar'' FRONTEND_DIR = [(''App.vue'', 1)] \<and>
   ''foo.bar'' \<notin> set (unused_keys unused_analysis) \<and>
   ''foo.qux'' \<in> set (filtered_keys unused_analysis) \<and>
   find_i18n_usage unused_example ''foo.qux'' FRONTEND_DIR = [] \<and>
   ''foo.qux'' \<in> label_key_usage unused_analysis \<and>
   ''foo.qux'' \<notin> set (unused_keys unused_analysis)"
proof -
  have f: "''foo.baz'' \<in> set (filtered_keys unused_analysis)"
    "''foo.bar'' \<in> set (filtered_keys unused_analysis)"
    "''foo.qux'' \<in> set (filtered_keys unused_analysis)"
    by (simp_all add: unused_analysis_def)
  have u: "find_i18n_usage unused_example ''foo.baz'' FRONTEND_DIR = []"
    "find_i18n_usage unused_example ''foo.bar'' FRONTEND_DIR = [(''App.vue'', 1)]"
    "find_i18n_usage unused_example ''foo.qux'' FRONTEND_DIR = []"
    by code_simp+
  have l: "''foo.baz'' \<notin> label_key_usage unused_analysis"
    "''foo.qux'' \<in> label_key_usage unused_analysis"
    by (simp_all add: unused_analysis_def)
  from unused_keys_rule [OF unused_run f(1)] unused_keys_rule [OF unused_run f(2)]
    unused_keys_rule [OF unused_run f(3)] unused_run f u l
  show ?thesis by simp
qed

text \<open>
  Claim C9. For a path that does not exist both extractors return empty results with
  the warning and raise nothing; in the analysis a missing locale or type file has the
  empty table, the key list is the union of the other tables, and the warning is among
  those reported.
\<close>

theorem missing_artifact:
  assumes "\<not> path_exists fs file_path"
  shows "extract_keys_from_locale fs file_path =
           Inr (([], {}), [''Warning: '' @ file_path @ '' not found'']) \<and>
         extract_keys_from_types fs file_path =
           Inr ([], [''Warning: '' @ file_path @ '' not found'']) \<and>
         (\<forall>r. main_analysis fs = Inr r \<longrightarrow>
            (file_path = EN_FILE \<longrightarrow>
               en_keys r = [] \<and> en_categories r = {} \<and>
               set (all_keys r) = fst ` set (zh_keys r) \<union> fst ` set (types_keys r)) \<and>
            (file_path = ZH_FILE \<longrightarrow>
               zh_keys r = [] \<and> zh_categories r = {} \<and>
               set (all_keys r) = fst ` set (en_keys r) \<union> fst ` set (types_keys r)) \<and>
            (file_path = TYPES_FILE \<longrightarrow>
               types_keys r = [] \<and>
               set (all_keys r) = fst ` set (en_keys r) \<union> fst ` set (zh_keys r)) \<and>
            (file_path \<in> {EN_FILE, ZH_FILE, TYPES_FILE} \<longrightarrow>
               (''Warning: '' @ file_path @ '' not found'') \<in> set (warnings r)))"
proof (intro conjI allI impI)
  show "extract_keys_from_locale fs file_path =
           Inr (([], {}), [''Warning: '' @ file_path @ '' not found''])"
    using assms by (simp add: extract_keys_from_locale_def)
  show "extract_keys_from_types fs file_path =
           Inr ([], [''Warning: '' @ file_path @ '' not found''])"
    using assms by (simp add: extract_keys_from_types_def)
next
  fix r assume "main_analysis fs = Inr r"
  then obtain en_ks en_cats out1 zh_ks zh_cats out2 types_ks out3 where
    en: "extract_keys_from_locale fs EN_FILE = Inr ((en_ks, en_cats), out1)" and
    zh: "extract_keys_from_locale fs ZH_FILE = Inr ((zh_ks, zh_cats), out2)" and
    ty: "extract_keys_from_types fs TYPES_FILE = Inr (types_ks, out3)" and
    r: "r = reconcile fs en_ks en_cats zh_ks zh_cats types_ks (out1 @ out2 @ out3)"
    by (rule main_analysis_Inr)
  {
    assume "file_path = EN_FILE"
    with assms en have e: "en_ks = []" "en_cats = {}"
      by (simp_all add: extract_keys_from_locale_def)
    then show "en_keys r = []" "en_categories r = {}"
      "set (all_keys r) = fst ` set (zh_keys r) \<union> fst ` set (types_keys r)"
      unfolding r reconcile_fields by simp_all
  }
  {
    assume "file_path = ZH_FILE"
    with assms zh have e: "zh_ks = []" "zh_cats = {}"
      by (simp_all add: extract_keys_from_locale_def)
    then show "zh_keys r = []" "zh_categories r = {}"
      "set (all_keys r) = fst ` set (en_keys r) \<union> fst ` set (types_keys r)"
      unfolding r reconcile_fields by simp_all
  }
  {
    assume "file_path = TYPES_FILE"
    with assms ty have e: "types_ks = []"
      by (simp_all add: extract_keys_from_types_def)
    then show "types_keys r = []"
      "set (all_keys r) = fst ` set (en_keys r) \<union> fst ` set (zh_keys r)"
      unfolding r reconcile_fields by simp_all
  }
  {
    assume "file_path \<in> {EN_FILE, ZH_FILE, TYPES_FILE}"
    with assms en zh ty show "(''Warning: '' @ file_path @ '' not found'') \<in> set (warnings r)"
      unfolding r reconcile_fields
      by (auto simp: extract_keys_from_locale_def extract_keys_from_types_def)
  }
qed

theorem missing_artifact_witness:
  "\<not> path_exists category_call_example ZH_FILE \<and>
   extract_keys_from_locale category_call_example ZH_FILE =
     Inr (([], {}), [''Warning: frontend/src/i18n/locales/zh.ts not found'']) \<and>
   extract_keys_from_types category_call_example ZH_FILE =
     Inr ([], [''Warning: frontend/src/i18n/locales/zh.ts not found'']) \<and>
   main_analysis category_call_example = Inr category_call_analysis \<and>
   zh_keys category_call_analysis = [] \<and>
   zh_categories category_call_analysis = {} \<and>
   set (all_keys category_call_analysis) =
     fst ` set (en_keys category_call_analysis) \<union> fst ` set (types_keys category_call_analysis) \<and>
   ''Warning: frontend/src/i18n/locales/zh.ts not found'' \<in> set (warnings category_call_analysis)"
proof -
  have n: "\<not> path_exists category_call_example ZH_FILE"
    by code_simp
  have z: "''Warning: '' @ ZH_FILE @ '' not found'' =
      ''Warning: frontend/src/i18n/locales/zh.ts not found''"
    by (simp add: ZH_FILE_def)
  from missing_artifact [OF n] category_call_run n show ?thesis
    unfolding z by simp
qed

section \<open>What a scan reports\<close>

lemma before_Nil: "before prev [] = prev"
  by (simp add: before_def)

lemma before_Cons: "before prev (c # pre) = before (Some c) pre"
  by (simp add: before_def)

lemma finditer_aux_sound:
  "(pos, n, g) \<in> set (finditer_aux m k prev pos0 s) \<Longrightarrow>
   \<exists>pre rest. s = pre @ rest \<and> pos = pos0 + length pre \<and> rest \<noteq> [] \<and>
     m (before prev pre) rest = Some (n, g)"
proof (induction m k prev pos0 s rule: finditer_aux.induct)
  case (1 m k prev pos)
  then show ?case by simp
next
  case (2 m k prev pos0 c cs)
  then obtain pre rest where
    "cs = pre @ rest" "pos = Suc pos0 + length pre" "rest \<noteq> []"
    "m (before (Some c) pre) rest = Some (n, g)"
    by auto
  then have "c # cs = (c # pre) @ rest \<and> pos = pos0 + length (c # pre) \<and> rest \<noteq> [] \<and>
      m (before prev (c # pre)) rest = Some (n, g)"
    by (simp add: before_Cons)
  then show ?case by blast
next
  case (3 m prev pos0 c cs)
  show ?case
  proof (cases "m prev (c # cs)")
    case None
    with 3 obtain pre rest where
      "cs = pre @ rest" "pos = Suc pos0 + length pre" "rest \<noteq> []"
      "m (before (Some c) pre) rest = Some (n, g)"
      by auto
    then have "c # cs = (c # pre) @ rest \<and> pos = pos0 + length (c # pre) \<and> rest \<noteq> [] \<and>
        m (before prev (c # pre)) rest = Some (n, g)"
      by (simp add: before_Cons)
    then show ?thesis by blast
  next
    case (Some a)
    obtain n' g' where a: "a = (n', g')" by (cases a)
    from "3.prems" Some a consider "(pos, n, g) = (pos0, n', g')"
      | "(pos, n, g) \<in> set (finditer_aux m (n' - 1) (Some c) (Suc pos0) cs)"
      by auto
    then show ?thesis
    proof cases
      case 1
      with Some a have "c # cs = [] @ (c # cs) \<and> pos = pos0 + length ([]::string) \<and>
          c # cs \<noteq> [] \<and> m (before prev []) (c # cs) = Some (n, g)"
        by (simp add: before_Nil)
      then show ?thesis by blast
    next
      case 2
      with "3.IH"(2) [OF Some a [symmetric]] obtain pre rest where
        "cs = pre @ rest" "pos = Suc pos0 + length pre" "rest \<noteq> []"
        "m (before (Some c) pre) rest = Some (n, g)"
        by auto
      then have "c # cs = (c # pre) @ rest \<and> pos = pos0 + length (c # pre) \<and> rest \<noteq> [] \<and>
          m (before prev (c # pre)) rest = Some (n, g)"
        by (simp add: before_Cons)
      then show ?thesis by blast
    qed
  qed
qed

lemma finditer_sound:
  assumes "(pos, n, g) \<in> set (finditer m content)"
  shows "pos < length content \<and>
         m (before None (take pos content)) (drop pos content) = Some (n, g)"
proof -
  from assms obtain pre rest where
    c: "content = pre @ rest" and p: "pos = length pre" and r: "rest \<noteq> []" and
    m: "m (before None pre) rest = Some (n, g)"
    unfolding finditer_def by (auto dest: finditer_aux_sound)
  from c p r m show ?thesis by simp
qed

lemma finditer_aux_complete:
  "m (before prev pre) rest = Some (n, g) \<Longrightarrow> rest \<noteq> [] \<Longrightarrow>
   \<exists>pos n' g'. (pos, n', g') \<in> set (finditer_aux m 0 prev pos0 (pre @ rest)) \<and>
     pos \<le> pos0 + length pre"
proof (induction pre arbitrary: prev pos0)
  case Nil
  then obtain c cs where "rest = c # cs" by (cases rest) auto
  with Nil show ?case by (auto simp: before_Nil)
next
  case (Cons c pre)
  show ?case
  proof (cases "m prev (c # pre @ rest)")
    case None
    from Cons.prems(1) have "m (before (Some c) pre) rest = Some (n, g)"
      by (simp add: before_Cons)
    from Cons.IH [OF this Cons.prems(2), of "Suc pos0"] None show ?thesis
      by auto
  next
    case (Some a)
    obtain n' g' where "a = (n', g')" by (cases a)
    with Some have "(pos0, n', g') \<in> set (finditer_aux m 0 prev pos0 ((c # pre) @ rest))"
      by simp
    then show ?thesis by force
  qed
qed

lemma finditer_complete:
  assumes "m (before None (take pos content)) (drop pos content) = Some (n, g)"
    and "pos < length content"
  shows "\<exists>pos' n' g'. (pos', n', g') \<in> set (finditer m content) \<and> pos' \<le> pos"
proof -
  from assms(2) have "drop pos content \<noteq> []" by simp
  from finditer_aux_complete [where m = m and prev = None and pre = "take pos content"
      and rest = "drop pos content" and ?pos0.0 = 0, OF assms(1) this] assms(2)
  show ?thesis
    unfolding finditer_def by (simp add: min_def)
qed

lemma call_head_lookbehind:
  "call_head (Some p) s = Some x \<Longrightarrow> \<not> is_word p"
  by (auto simp: call_head_def split: if_splits)

lemma call_head_start:
  "call_head prev s = Some x \<Longrightarrow> take 2 s = ''t(''"
  by (auto simp: call_head_def split: if_splits list.splits)

lemma call_pattern_head:
  "call_pattern prev s = Some x \<Longrightarrow> \<exists>y. call_head prev s = Some y"
  by (auto simp: call_pattern_def split: option.splits)

lemma key_call_pattern_head:
  "key_call_pattern key prev s = Some x \<Longrightarrow> \<exists>y. call_head prev s = Some y"
  by (auto simp: key_call_pattern_def split: option.splits)

lemma call_pattern_key_chars:
  "call_pattern prev s = Some (n, key) \<Longrightarrow> key \<noteq> [] \<and> list_all is_key_char key"
proof -
  assume a: "call_pattern prev s = Some (n, key)"
  then obtain k r where "call_head prev s = Some (k, r)" "key = takeWhile is_key_char r" "key \<noteq> []"
    by (auto simp: call_pattern_def Let_def split: option.splits if_splits list.splits)
  then show ?thesis
    by (auto simp: list_all_iff dest: set_takeWhileD)
qed

lemma call_pattern_is_key_call:
  assumes "call_pattern prev s = Some (n, key)"
  shows "key_call_pattern key prev s = Some (n, key)"
proof -
  from assms obtain k r q r' where
    h: "call_head prev s = Some (k, r)" and key: "key = takeWhile is_key_char r" and
    d: "dropWhile is_key_char r = q # r'" and q: "is_quote q" and
    t: "map_option (\<lambda>j. (k + length key + 1 + j, key)) (call_tail r') = Some (n, key)"
    by (auto simp: call_pattern_def Let_def split: option.splits if_splits list.splits)
  have r: "r = key @ q # r'"
    using key d by (metis takeWhile_dropWhile_id)
  then have "take (length key) r = key" "drop (length key) r = q # r'" by simp_all
  with h q t show ?thesis
    by (simp add: key_call_pattern_def)
qed

lemma before_take:
  "pos < length content \<Longrightarrow>
   before None (take pos content) = (if pos = 0 then None else Some (content ! (pos - 1)))"
  by (auto simp: before_def last_conv_nth min_def)

lemma call_match_start:
  assumes "call_head (before None (take pos content)) (drop pos content) = Some x"
    and "pos < length content"
  shows "take 2 (drop pos content) = ''t('' \<and> (0 < pos \<longrightarrow> \<not> is_word (content ! (pos - 1)))"
proof
  from assms(1) show "take 2 (drop pos content) = ''t(''" by (rule call_head_start)
  show "0 < pos \<longrightarrow> \<not> is_word (content ! (pos - 1))"
  proof
    assume "0 < pos"
    with assms have "call_head (Some (content ! (pos - 1))) (drop pos content) = Some x"
      by (simp add: before_take)
    then show "\<not> is_word (content ! (pos - 1))" by (rule call_head_lookbehind)
  qed
qed

lemma call_pattern_matches:
  assumes "(pos, n, key) \<in> set (finditer call_pattern content)"
  shows "take 2 (drop pos content) = ''t('' \<and> (0 < pos \<longrightarrow> \<not> is_word (content ! (pos - 1))) \<and>
         key \<noteq> [] \<and> list_all is_key_char key"
proof -
  from assms have p: "pos < length content"
    and m: "call_pattern (before None (take pos content)) (drop pos content) = Some (n, key)"
    by (auto dest: finditer_sound)
  from m obtain y where "call_head (before None (take pos content)) (drop pos content) = Some y"
    by (auto dest: call_pattern_head)
  from call_match_start [OF this p] call_pattern_key_chars [OF m] show ?thesis by simp
qed

lemma key_call_pattern_matches:
  assumes "(pos, n, g) \<in> set (finditer (key_call_pattern key) content)"
  shows "take 2 (drop pos content) = ''t('' \<and> (0 < pos \<longrightarrow> \<not> is_word (content ! (pos - 1)))"
proof -
  from assms have p: "pos < length content"
    and m: "key_call_pattern key (before None (take pos content)) (drop pos content) = Some (n, g)"
    by (auto dest: finditer_sound)
  from m obtain y where "call_head (before None (take pos content)) (drop pos content) = Some y"
    by (auto dest: key_call_pattern_head)
  from call_match_start [OF this p] show ?thesis .
qed

text \<open>
  Claim C7. A match of either call pattern starts at \<open>t(\<close>, the character before it is
  not a word character, and the key of the global pattern is a non-empty run of key
  characters. So at an occurrence of \<open>t(\<close> that follows a word character, as in
  \<open>createElement('x')\<close> or \<open>closest('x')\<close>, no match starts, and the scanners, which
  report one usage per match, report none for that occurrence.
\<close>

theorem standalone_call_rule:
  "(\<forall>m\<in>set (finditer call_pattern content).
      take 2 (drop (fst m) content) = ''t('' \<and>
      (0 < fst m \<longrightarrow> \<not> is_word (content ! (fst m - 1))) \<and>
      snd (snd m) \<noteq> [] \<and> list_all is_key_char (snd (snd m))) \<and>
   (\<forall>m\<in>set (finditer (key_call_pattern key) content).
      take 2 (drop (fst m) content) = ''t('' \<and>
      (0 < fst m \<longrightarrow> \<not> is_word (content ! (fst m - 1)))) \<and>
   (content = pre @ ''t('' @ rest \<and> pre \<noteq> [] \<and> is_word (last pre) \<longrightarrow>
      length pre \<notin> fst ` set (finditer call_pattern content) \<and>
      length pre \<notin> fst ` set (finditer (key_call_pattern key) content))"
proof -
  have a: "\<forall>m\<in>set (finditer call_pattern content).
      take 2 (drop (fst m) content) = ''t('' \<and>
      (0 < fst m \<longrightarrow> \<not> is_word (content ! (fst m - 1))) \<and>
      snd (snd m) \<noteq> [] \<and> list_all is_key_char (snd (snd m))"
  proof
    fix m assume "m \<in> set (finditer call_pattern content)"
    then have "(fst m, fst (snd m), snd (snd m)) \<in> set (finditer call_pattern content)" by simp
    then show "take 2 (drop (fst m) content) = ''t('' \<and>
      (0 < fst m \<longrightarrow> \<not> is_word (content ! (fst m - 1))) \<and>
      snd (snd m) \<noteq> [] \<and> list_all is_key_char (snd (snd m))"
      by (rule call_pattern_matches)
  qed
  have b: "\<forall>m\<in>set (finditer (key_call_pattern key) content).
      take 2 (drop (fst m) content) = ''t('' \<and>
      (0 < fst m \<longrightarrow> \<not> is_word (content ! (fst m - 1)))"
  proof
    fix m assume "m \<in> set (finditer (key_call_pattern key) content)"
    then have "(fst m, fst (snd m), snd (snd m)) \<in> set (finditer (key_call_pattern key) content)"
      by simp
    then show "take 2 (drop (fst m) content) = ''t('' \<and>
      (0 < fst m \<longrightarrow> \<not> is_word (content ! (fst m - 1)))"
      by (rule key_call_pattern_matches)
  qed
  have c: "content = pre @ ''t('' @ rest \<and> pre \<noteq> [] \<and> is_word (last pre) \<longrightarrow>
      length pre \<notin> fst ` set (finditer call_pattern content) \<and>
      length pre \<notin> fst ` set (finditer (key_call_pattern key) content)"
  proof
    assume h: "content = pre @ ''t('' @ rest \<and> pre \<noteq> [] \<and> is_word (last pre)"
    then have "last pre = pre ! (length pre - 1)" by (simp add: last_conv_nth)
    with h have w: "0 < length pre" "is_word (content ! (length pre - 1))"
      by (simp_all add: nth_append)
    have "length pre \<notin> fst ` set (finditer call_pattern content)"
    proof
      assume "length pre \<in> fst ` set (finditer call_pattern content)"
      then obtain n g where "(length pre, n, g) \<in> set (finditer call_pattern content)" by force
      from call_pattern_matches [OF this] w show False by simp
    qed
    moreover have "length pre \<notin> fst ` set (finditer (key_call_pattern key) content)"
    proof
      assume "length pre \<in> fst ` set (finditer (key_call_pattern key) content)"
      then obtain n g where "(length pre, n, g) \<in> set (finditer (key_call_pattern key) content)"
        by force
      from key_call_pattern_matches [OF this] w show False by simp
    qed
    ultimately show "length pre \<notin> fst ` set (finditer call_pattern content) \<and>
      length pre \<notin> fst ` set (finditer (key_call_pattern key) content)" ..
  qed
  from a b c show ?thesis by blast
qed

theorem standalone_call_rule_witness:
  "lookbehind_example = ''createElemen'' @ ''t('' @ drop 14 lookbehind_example \<and>
   is_word (last ''createElemen'') \<and>
   12 \<notin> fst ` set (finditer call_pattern lookbehind_example) \<and>
   12 \<notin> fst ` set (finditer (key_call_pattern ''x'') lookbehind_example) \<and>
   finditer call_pattern lookbehind_example = [(34, 6, ''z'')] \<and>
   finditer (key_call_pattern ''x'') lookbehind_example = [] \<and>
   take 2 (drop 34 lookbehind_example) = ''t('' \<and>
   \<not> is_word (lookbehind_example ! 33)"
proof -
  have e: "lookbehind_example = ''createElemen'' @ ''t('' @ drop 14 lookbehind_example"
    by code_simp
  have w: "is_word (last ''createElemen'')" by code_simp
  have f: "finditer call_pattern lookbehind_example = [(34, 6, ''z'')]" by code_simp
  have g: "finditer (key_call_pattern ''x'') lookbehind_example = []" by code_simp
  note rule = standalone_call_rule [where content = lookbehind_example and pre = "''createElemen''"
      and rest = "drop 14 lookbehind_example" and key = "''x''"]
  from rule e w have "length ''createElemen'' \<notin> fst ` set (finditer call_pattern lookbehind_example) \<and>
      length ''createElemen'' \<notin> fst ` set (finditer (key_call_pattern ''x'') lookbehind_example)"
    by blast
  moreover have l: "length ''createElemen'' = 12" by code_simp
  ultimately have n: "12 \<notin> fst ` set (finditer call_pattern lookbehind_example)"
    "12 \<notin> fst ` set (finditer (key_call_pattern ''x'') lookbehind_example)"
    unfolding l by blast+
  from rule f have "take 2 (drop 34 lookbehind_example) = ''t('' \<and>
      \<not> is_word (lookbehind_example ! 33)"
    by simp
  with e w n f g show ?thesis by blast
qed

section \<open>The two scans\<close>

text \<open>
  What the two scans share. The index of the single-pass scan holds, for a key, the
  locations of its direct calls followed by the \<open>labelKey\<close> locations of the special
  files (\<open>usages_of_find_all\<close>); and wherever it records a direct call of a key, the
  scan for that key reports a usage in the same file, on the same or an earlier line
  (\<open>direct_calls_in_usage\<close>).
\<close>

lemma map_of_extend_calls:
  "map_of (extend_calls k locations d) key =
   (if k = key then Some (usages_of d key @ locations) else map_of d key)"
  by (induction d) (auto simp: usages_of_def)

lemma usages_of_extend:
  "set (usages_of (extend_calls k locations d) key) =
   set (usages_of d key) \<union> (if k = key then set locations else {})"
  by (auto simp: usages_of_def map_of_extend_calls split: option.splits)

lemma usages_of_fold:
  assumes "\<And>x d. set (usages_of (step x d) key) = set (usages_of d key) \<union> G x"
  shows "set (usages_of (fold step xs d) key) = set (usages_of d key) \<union> \<Union> (G ` set xs)"
proof (induction xs arbitrary: d)
  case Nil
  show ?case by simp
next
  case (Cons x xs)
  show ?case by (simp add: Cons.IH assms Un_assoc)
qed

lemma usages_of_calls_in_file:
  "set (usages_of (calls_in_file search_dir f d) key) =
   set (usages_of d key) \<union> file_calls search_dir f key"
proof (cases f)
  case (Pair file_path content)
  show ?thesis
  proof (cases "contains ''i18n/'' file_path \<or> content = None")
    case True
    then show ?thesis by (auto simp: calls_in_file_def file_calls_def Pair)
  next
    case False
    then obtain src where t: "content = Some src" and c: "\<not> contains ''i18n/'' file_path" by auto
    let ?c = "strip_comments src"
    let ?loc = "\<lambda>start. (relative_to search_dir file_path, line_of ?c start)"
    have "set (usages_of (fold (\<lambda>(start, n, k). extend_calls k [?loc start])
              (finditer call_pattern ?c) d) key) =
          set (usages_of d key) \<union>
          \<Union> ((\<lambda>(start, n, k). if k = key then {?loc start} else {}) ` set (finditer call_pattern ?c))"
      by (rule usages_of_fold) (auto simp: usages_of_extend split: if_splits)
    also have "\<Union> ((\<lambda>(start, n, k). if k = key then {?loc start} else {}) ` set (finditer call_pattern ?c)) =
          {?loc start | start n. (start, n, key) \<in> set (finditer call_pattern ?c)}"
      by (auto split: if_splits) blast
    finally show ?thesis
      using t c by (simp add: calls_in_file_def file_calls_def Pair Let_def)
  qed
qed

lemma usages_of_Nil: "usages_of [] key = []"
  by (simp add: usages_of_def)

lemma usages_of_direct_calls:
  "set (usages_of (direct_calls fs search_dir) key) =
   (\<Union>ext\<in>set source_exts. \<Union>f\<in>set (rglob fs search_dir ext). file_calls search_dir f key)"
proof -
  have inner: "\<And>ext d. set (usages_of (fold (calls_in_file search_dir) (rglob fs search_dir ext) d) key) =
      set (usages_of d key) \<union> (\<Union>f\<in>set (rglob fs search_dir ext). file_calls search_dir f key)"
    by (rule usages_of_fold) (rule usages_of_calls_in_file)
  have "set (usages_of (fold (\<lambda>ext all_calls.
            fold (calls_in_file search_dir) (rglob fs search_dir ext) all_calls) source_exts []) key) =
        set (usages_of [] key) \<union>
        \<Union> ((\<lambda>ext. \<Union>f\<in>set (rglob fs search_dir ext). file_calls search_dir f key) ` set source_exts)"
    by (rule usages_of_fold) (rule inner)
  then show ?thesis by (simp add: direct_calls_def usages_of_Nil)
qed

lemma set_find_i18n_usage:
  "set (find_i18n_usage fs key search_dir) =
   (\<Union>ext\<in>set source_exts. \<Union>f\<in>set (rglob fs search_dir ext). set (usage_in_file key search_dir f))"
  by (auto simp: find_i18n_usage_def)

lemma line_of_mono: "pos' \<le> pos \<Longrightarrow> line_of content pos' \<le> line_of content pos"
proof -
  assume "pos' \<le> pos"
  then have "take pos content = take pos' content @ take (pos - pos') (drop pos' content)"
    by (metis le_add_diff_inverse take_add)
  then show ?thesis by (simp add: line_of_def)
qed

lemma file_calls_in_usage:
  assumes "(rel, line) \<in> file_calls search_dir f key"
  shows "\<exists>line'. (rel, line') \<in> set (usage_in_file key search_dir f) \<and> line' \<le> line"
proof -
  obtain file_path content where f: "f = (file_path, content)" by (cases f)
  from assms f obtain src start n where
    c: "\<not> contains ''i18n/'' file_path" and t: "content = Some src" and
    rel: "rel = relative_to search_dir file_path" and
    line: "line = line_of (strip_comments src) start" and
    m: "(start, n, key) \<in> set (finditer call_pattern (strip_comments src))"
    by (auto simp: file_calls_def split: if_splits option.splits)
  let ?c = "strip_comments src"
  from m have p: "start < length ?c"
    and cp: "call_pattern (before None (take start ?c)) (drop start ?c) = Some (n, key)"
    by (auto dest: finditer_sound)
  from cp have "key_call_pattern key (before None (take start ?c)) (drop start ?c) = Some (n, key)"
    by (rule call_pattern_is_key_call)
  from finditer_complete [where m = "key_call_pattern key" and content = ?c and pos = start,
      OF this p] obtain start' n' g' where
    m': "(start', n', g') \<in> set (finditer (key_call_pattern key) ?c)" and le: "start' \<le> start"
    by blast
  from m' have "(rel, line_of ?c start') \<in> set (usage_in_file key search_dir f)"
    using c t rel by (force simp: usage_in_file_def f Let_def)
  moreover from le have "line_of ?c start' \<le> line" unfolding line by (rule line_of_mono)
  ultimately show ?thesis by blast
qed

lemma direct_calls_in_usage:
  assumes "(rel, line) \<in> set (usages_of (direct_calls fs search_dir) key)"
  shows "\<exists>line'. (rel, line') \<in> set (find_i18n_usage fs key search_dir) \<and> line' \<le> line"
proof -
  from assms obtain ext f where
    e: "ext \<in> set source_exts" and f: "f \<in> set (rglob fs search_dir ext)" and
    c: "(rel, line) \<in> file_calls search_dir f key"
    unfolding usages_of_direct_calls by blast
  from file_calls_in_usage [OF c] obtain line' where
    "(rel, line') \<in> set (usage_in_file key search_dir f)" "line' \<le> line"
    by blast
  with e f show ?thesis unfolding set_find_i18n_usage by blast
qed

lemma extend_calls_old_key:
  "k \<in> fst ` set d \<Longrightarrow> map fst (extend_calls k locations d) = map fst d"
proof (induction d)
  case Nil
  then show ?case by simp
next
  case (Cons e d)
  obtain a ls where e: "e = (a, ls)" by (cases e)
  show ?case
  proof (cases "a = k")
    case True
    then show ?thesis by (simp add: e)
  next
    case False
    with Cons.prems e have "k \<in> fst ` set d" by auto
    with Cons.IH False show ?thesis by (simp add: e)
  qed
qed

lemma extend_calls_new_key:
  "k \<notin> fst ` set d \<Longrightarrow> map fst (extend_calls k locations d) = map fst d @ [k]"
  by (induction d) auto

lemma distinct_extend_calls:
  "distinct (map fst d) \<Longrightarrow> distinct (map fst (extend_calls k locations d))"
  by (cases "k \<in> fst ` set d") (simp_all add: extend_calls_old_key extend_calls_new_key)

lemma distinct_fold_extend:
  "distinct (map fst d) \<Longrightarrow>
   distinct (map fst (fold (\<lambda>(start, n, key). extend_calls key [loc start]) ms d))"
  by (induction ms arbitrary: d) (auto simp: distinct_extend_calls split: prod.splits)

lemma distinct_label_keys:
  "distinct (map fst (extract_label_keys_from_file fs file_path search_dir))"
  by (auto simp: extract_label_keys_from_file_def Let_def distinct_fold_extend
      split: sum.splits)

lemma usages_of_merge:
  "distinct (map fst label_keys) \<Longrightarrow>
   set (usages_of (fold (\<lambda>(key, locations). extend_calls key locations) label_keys d) key) =
   set (usages_of d key) \<union> set (usages_of label_keys key)"
proof (induction label_keys arbitrary: d)
  case Nil
  show ?case by (simp add: usages_of_Nil)
next
  case (Cons e label_keys)
  obtain k locations where e: "e = (k, locations)" by (cases e)
  from Cons.prems e have d: "distinct (map fst label_keys)" and k: "k \<notin> fst ` set label_keys"
    by auto
  from k have none: "map_of label_keys k = None"
    by (simp add: map_of_eq_None_iff)
  have "set (usages_of (fold (\<lambda>(key, locations). extend_calls key locations) (e # label_keys) d) key) =
      set (usages_of (extend_calls k locations d) key) \<union> set (usages_of label_keys key)"
    by (simp add: e Cons.IH [OF d])
  then have step: "set (usages_of (fold (\<lambda>(key, locations). extend_calls key locations)
        (e # label_keys) d) key) =
      set (usages_of d key) \<union>
      ((if k = key then set locations else {}) \<union> set (usages_of label_keys key))"
    by (simp only: usages_of_extend Un_assoc)
  have "(if k = key then set locations else {}) \<union> set (usages_of label_keys key) =
      set (usages_of (e # label_keys) key)"
    using none by (auto simp: e usages_of_def)
  with step show ?case by simp
qed

lemma usages_of_merge_label_keys:
  "set (usages_of (merge_label_keys fs search_dir special_file d) key) =
   set (usages_of d key) \<union>
   set (usages_of (extract_label_keys_from_file fs (search_dir @ ''/'' @ special_file) search_dir) key)"
proof (cases "path_exists fs (search_dir @ ''/'' @ special_file)")
  case True
  then show ?thesis
    by (simp add: merge_label_keys_def usages_of_merge distinct_label_keys)
next
  case False
  then show ?thesis
    by (simp add: merge_label_keys_def extract_label_keys_from_file_def usages_of_Nil)
qed

lemma usages_of_find_all:
  "set (usages_of (find_all_i18n_calls fs search_dir) key) =
   set (usages_of (direct_calls fs search_dir) key) \<union>
   (\<Union>special_file\<in>set special_files.
      set (usages_of (extract_label_keys_from_file fs (search_dir @ ''/'' @ special_file) search_dir) key))"
  unfolding find_all_i18n_calls_def
  by (rule usages_of_fold) (rule usages_of_merge_label_keys)

text \<open>
  Claim C8 is not what the code does. Where a call is an argument of another call,
  the match of the outer call in the single-pass scan runs up to the first closing
  parenthesis, which is that of the inner call, and the scan goes on after it: the
  inner call is never matched and its key gets no location, while the scan for that
  key finds the call. In the example the single-pass scan holds the key \<open>a\<close> only, the
  scan for \<open>b\<close> reports line 1 of the file, and the analysis, which takes the missing
  keys from the single-pass scan, does not report the undeclared \<open>b\<close>.
\<close>

theorem nested_call_skipped:
  "find_all_i18n_calls nested_call_example FRONTEND_DIR = [(''a'', [(''App.ts'', 1)])] \<and>
   usages_of (find_all_i18n_calls nested_call_example FRONTEND_DIR) ''b'' = [] \<and>
   find_i18n_usage nested_call_example ''b'' FRONTEND_DIR = [(''App.ts'', 1)] \<and>
   finditer call_pattern ''label = t('a', t('b'))'' = [(8, 13, ''a'')] \<and>
   finditer (key_call_pattern ''b'') ''label = t('a', t('b'))'' = [(15, 6, ''b'')] \<and>
   (case main_analysis nested_call_example of
      Inl e \<Rightarrow> False
    | Inr r \<Rightarrow> missing_keys r = {''a''})"
proof -
  have a: "find_all_i18n_calls nested_call_example FRONTEND_DIR = [(''a'', [(''App.ts'', 1)])]"
    by code_simp
  have b: "usages_of (find_all_i18n_calls nested_call_example FRONTEND_DIR) ''b'' = []"
    by code_simp
  have c: "find_i18n_usage nested_call_example ''b'' FRONTEND_DIR = [(''App.ts'', 1)]"
    by code_simp
  have d: "finditer call_pattern ''label = t('a', t('b'))'' = [(8, 13, ''a'')]"
    by code_simp
  have e: "finditer (key_call_pattern ''b'') ''label = t('a', t('b'))'' = [(15, 6, ''b'')]"
    by code_simp
  have f: "(case main_analysis nested_call_example of
      Inl e \<Rightarrow> False
    | Inr r \<Rightarrow> missing_keys r = {''a''})"
    by code_simp
  from a b c d e f show ?thesis by blast
qed

section \<open>Comments and line numbers\<close>

text \<open>
  Removing the line comments keeps the number of lines: a match of that pattern holds
  no newline.
\<close>

lemma length_split_lines: "length (split_lines content) = count_list content NL + 1"
proof (induction content rule: split_lines.induct)
  case (1 content)
  show ?case
  proof (cases "dropWhile (\<lambda>x. x \<noteq> NL) content")
    case Nil
    then have "\<forall>x\<in>set content. x \<noteq> NL" by (simp add: dropWhile_eq_Nil_conv)
    then have "count_list content NL = 0" by (auto simp: count_list_0_iff)
    moreover have "split_lines content = [content]"
      by (subst split_lines.simps) (simp only: Nil list.case)
    ultimately show ?thesis by simp
  next
    case (Cons c rest)
    define first where "first = takeWhile (\<lambda>x. x \<noteq> NL) content"
    from Cons have "content = takeWhile (\<lambda>x. x \<noteq> NL) content @ c # rest \<and> \<not> c \<noteq> NL"
      using dropWhile_eq_Cons_conv [of "\<lambda>x. x \<noteq> NL" content c rest] by blast
    then have eq: "content = first @ c # rest" and c: "c = NL"
      unfolding first_def by blast+
    have nf: "count_list first NL = 0"
      unfolding first_def by (auto simp: count_list_0_iff dest: set_takeWhileD)
    from eq have "count_list content NL = count_list (first @ c # rest) NL"
      by (rule arg_cong)
    with nf c have cnt: "count_list content NL = Suc (count_list rest NL)"
      by simp
    have "split_lines content = first # split_lines rest"
      by (subst split_lines.simps) (simp only: Cons list.case first_def)
    with cnt "1.IH" [OF Cons] show ?thesis by simp
  qed
qed

lemma sub_empty_aux_newlines:
  "\<forall>prev s n g. m prev s = Some (n, g) \<longrightarrow> NL \<notin> set (take n s) \<Longrightarrow>
   NL \<notin> set (take k s) \<Longrightarrow>
   count_list (sub_empty_aux m k prev s) NL = count_list (drop k s) NL"
proof (induction m k prev s rule: sub_empty_aux.induct)
  case (1 m k prev)
  show ?case by simp
next
  case (2 m k prev c cs)
  then show ?case by simp
next
  case (3 m prev c cs)
  show ?case
  proof (cases "m prev (c # cs)")
    case None
    then have "count_list (sub_empty_aux m 0 (Some c) cs) NL = count_list (drop 0 cs) NL"
      using "3.prems"(1) by (intro "3.IH"(1)) simp_all
    with None show ?thesis by auto
  next
    case (Some a)
    obtain n g where a: "a = (n, g)" by (cases a)
    show ?thesis
    proof (cases "n = 0")
      case True
      with Some a have "count_list (sub_empty_aux m 0 (Some c) cs) NL = count_list (drop 0 cs) NL"
        using "3.prems"(1) by (intro "3.IH"(2)) simp_all
      with Some a True show ?thesis by auto
    next
      case False
      from Some a "3.prems"(1) have "NL \<notin> set (take n (c # cs))" by blast
      moreover from False obtain n' where "n = Suc n'" by (cases n) auto
      ultimately have c: "c \<noteq> NL" and no: "NL \<notin> set (take (n - 1) cs)"
        by auto
      from Some a False no have "count_list (sub_empty_aux m (n - 1) (Some c) cs) NL =
          count_list (drop (n - 1) cs) NL"
        using "3.prems"(1) by (intro "3.IH"(3)) simp_all
      moreover have "count_list cs NL =
          count_list (take (n - 1) cs) NL + count_list (drop (n - 1) cs) NL"
        by (metis append_take_drop_id count_list_append)
      moreover from no have "count_list (take (n - 1) cs) NL = 0"
        by (simp add: count_list_0_iff)
      ultimately show ?thesis using Some a False c by simp
    qed
  qed
qed

lemma line_comment_no_newline:
  assumes "line_comment_re prev s = Some (n, g)"
  shows "NL \<notin> set (take n s)"
proof -
  from assms obtain rest where s: "s = CHR ''/'' # CHR ''/'' # rest"
    and n: "n = 2 + length (takeWhile (\<lambda>x. x \<noteq> NL) rest)"
    by (auto simp: line_comment_re_def split: list.splits if_splits)
  have "take (length (takeWhile (\<lambda>x. x \<noteq> NL) rest)) rest = takeWhile (\<lambda>x. x \<noteq> NL) rest"
    by (metis append_eq_conv_conj takeWhile_dropWhile_id)
  then have "take n s = CHR ''/'' # CHR ''/'' # takeWhile (\<lambda>x. x \<noteq> NL) rest"
    by (simp add: s n)
  then show ?thesis by (auto dest: set_takeWhileD)
qed

lemma line_comment_keeps_line_count:
  "line_count (sub_empty line_comment_re content) = line_count content"
proof -
  have "count_list (sub_empty_aux line_comment_re 0 None content) NL =
      count_list (drop 0 content) NL"
    by (rule sub_empty_aux_newlines) (auto dest: line_comment_no_newline)
  then show ?thesis
    by (simp add: line_count_def length_split_lines sub_empty_def)
qed

text \<open>
  Claim C2 is not what the code does. Removing a block comment removes the newlines
  inside it: the example text has four lines and its stripped form three, and the
  extractor, which numbers lines in the stripped text, records \<open>b\<close> on line 2 while
  the file declares it on line 3.
\<close>

theorem block_comment_changes_line_count:
  "line_count block_comment_example = 4 \<and>
   strip_comments block_comment_example = ''a: 'x', \<newline>b: 'y',\<newline>'' \<and>
   line_count (strip_comments block_comment_example) = 3 \<and>
   split_lines block_comment_example ! 2 = ''b: 'y','' \<and>
   keys (extract_from_text value_pattern block_comment_example) = [(''a'', 1), (''b'', 2)]"
proof -
  have "line_count block_comment_example = 4" by code_simp
  moreover have "strip_comments block_comment_example = ''a: 'x', \<newline>b: 'y',\<newline>''"
    by code_simp
  moreover have "line_count (strip_comments block_comment_example) = 3" by code_simp
  moreover have "split_lines block_comment_example ! 2 = ''b: 'y',''" by code_simp
  moreover have "keys (extract_from_text value_pattern block_comment_example) =
      [(''a'', 1), (''b'', 2)]"
    by code_simp
  ultimately show ?thesis by blast
qed

end
